theory Spec2Isabelle
  imports Complex_Main "HOL-Library.Sublist" "HOL-Library.Log_Nat"
begin

section \<open>Values shared by the components\<close>

text \<open>
  JavaScript objects and functions are compared by reference (\<open>Object.is\<close>) in hook
  dependency arrays. The identity of an object is modelled as an address.
  A thrown or rejected value is either an instance of \<open>Error\<close> with its message, or
  any other value.  A number (\<open>performance.now()\<close>, a percentage) is a double, given
  by its value, a real.
\<close>

type_synonym addr = nat

datatype js_value = Error string | NonError

text \<open>\<open>interface SplatModel\<close> (GaussianSplatViewer.tsx, lines 9-15).\<close>

record SplatModel =
  name :: string
  url :: string
  position :: "(real \<times> real \<times> real) option"
  rotation :: "(real \<times> real \<times> real \<times> string) option"
  scale :: "(real \<times> real \<times> real) option"

text \<open>A \<open>SplatModel[]\<close> value: the identity of the array and its elements.\<close>

record models_array =
  arr_id :: addr
  arr_elems :: "SplatModel list"

text \<open>
  \<open>interface GaussianSplatViewerProps\<close> (lines 17-22). An optional callback is the
  identity of the function passed, or \<open>None\<close> for \<open>undefined\<close>.
\<close>

record GaussianSplatViewerProps =
  models :: models_array
  onLoad :: "addr option"
  onProgress :: "addr option"
  onError :: "addr option"

text \<open>\<open>interface PerformanceStats\<close> (lines 24-28).\<close>

record PerformanceStats =
  fps :: int
  splatCount :: int
  loadTime :: int

text \<open>\<open>Math.round\<close>: the nearest integer, ties towards positive infinity.\<close>

definition Math_round :: "real \<Rightarrow> int" where
  "Math_round x = \<lfloor>x + 1 / 2\<rfloor>"

text \<open>
  Arithmetic on doubles: \<open>-\<close>, \<open>*\<close> and \<open>/\<close> give the double nearest to the exact
  result, ties to the even significand (IEEE 754 binary64, round to nearest). \<open>fl\<close> is
  that rounding: \<open>binade x\<close> is the exponent \<open>e\<close> of \<open>x\<close>, the integer with
  \<open>2 ^ e \<le> \<bar>x\<bar> < 2 ^ (e + 1)\<close>, and the result is the multiple of \<open>2 ^ (e - 52)\<close>
  nearest to \<open>x\<close>. Overflow and subnormal numbers are left out: the numbers of this
  program are times in milliseconds, frame counts and rates.
\<close>

definition binade :: "real \<Rightarrow> int" where
  "binade x =
     (if 1 \<le> \<bar>x\<bar> then bitlen \<lfloor>\<bar>x\<bar>\<rfloor> - 1 else - bitlen (\<lceil>1 / \<bar>x\<bar>\<rceil> - 1))"

definition round_even :: "real \<Rightarrow> int" where
  "round_even y =
     (let f = \<lfloor>y\<rfloor>; r = y - of_int f
      in if r < 1 / 2 then f else if 1 / 2 < r then f + 1 else if even f then f else f + 1)"

definition fl :: "real \<Rightarrow> real" where
  "fl x =
     (if x = 0 then 0
      else
        let e = binade x - 52
        in if 0 \<le> e then 2 ^ nat e * of_int (round_even (x / 2 ^ nat e))
           else of_int (round_even (x * 2 ^ nat (- e))) / 2 ^ nat (- e))"

section \<open>The viewer component: state\<close>

text \<open>
  The component is the one of GaussianSplatViewer.tsx, lines 1-308, with the abort
  controller. Every run of its initialisation effect (lines 65-227) creates a closure holding its own
  \<open>abortController\<close>, \<open>viewer\<close> variable and \<open>startTime\<close>, and captures the props of
  that render. Such a closure is a \<^emph>\<open>session\<close>; sessions are numbered in the order of
  creation. A session constructs at most one \<open>Viewer\<close>, and that viewer object is named
  by the number of its session.

  \<open>pc\<close> records where the asynchronous function \<open>initViewer\<close> stands:
  \<open>AwaitingLoad\<close> until it gets past \<open>await viewer.addSplatScenes(...)\<close>,
  \<open>Finished\<close> once its body has run to its end or an exception has left it (the later
  \<open>await viewer.dispose()\<close> have no continuation). \<open>raf\<close> tells whether the session's \<open>animate\<close> callback is
  queued with \<open>requestAnimationFrame\<close>.
\<close>

datatype pc = AwaitingLoad | Finished

record session =
  s_props :: GaussianSplatViewerProps
  startTime :: real
  aborted :: bool
  viewer :: "nat option"
  pc :: pc
  raf :: bool

text \<open>
  The observable actions of the component: calls into the renderer library, calls of the
  callbacks received as props, \<open>abortController.abort()\<close> and
  \<open>requestAnimationFrame(animate)\<close>. \<open>Unhandled s e\<close> is the rejection with \<open>e\<close> of the
  promise returned by \<open>initViewer()\<close> in session \<open>s\<close>; line 200 attaches no handler to
  that promise. The actions are recorded in the order in which they happen.
\<close>

datatype action =
    Construct nat
  | AddSplatScenes nat "string list"
  | Start nat
  | Dispose nat
  | Abort nat
  | OnLoad nat
  | OnProgress nat real
  | OnError nat js_value
  | RequestFrame nat
  | Unhandled nat js_value

text \<open>
  The state of one mounted \<open>GaussianSplatViewer\<close>: its refs and state hooks
  (lines 36-43), what React remembers of the initialisation effect (the dependencies of the
  last run and the cleanup function it returned, named by its session), the sessions
  created so far, and the actions performed so far.
\<close>

record component =
  containerRef :: "addr option"
  viewerRef :: "nat option"
  isLoading :: bool
  loadProgress :: int
  stats :: "PerformanceStats option"
  error :: "string option"
  frameCountRef :: nat
  lastTimeRef :: real
  effect_deps :: "addr option list option"
  effect_cleanup :: "nat option"
  unmounted :: bool
  sessions :: "nat \<rightharpoonup> session"
  next_sid :: nat
  trace :: "action list"

definition initial :: component where
  "initial =
     \<lparr>containerRef = None, viewerRef = None, isLoading = True, loadProgress = 0,
      stats = None, error = None, frameCountRef = 0, lastTimeRef = 0,
      effect_deps = None, effect_cleanup = None, unmounted = False,
      sessions = Map.empty, next_sid = 0, trace = []\<rparr>"

definition emit :: "action \<Rightarrow> component \<Rightarrow> component" where
  "emit a st = st\<lparr>trace := trace st @ [a]\<rparr>"

definition upd_session :: "nat \<Rightarrow> (session \<Rightarrow> session) \<Rightarrow> component \<Rightarrow> component" where
  "upd_session s f st = st\<lparr>sessions := (sessions st)(s := map_option f (sessions st s))\<rparr>"

section \<open>The frame-rate sampler\<close>

text \<open>
  \<open>updateFPS\<close> (lines 45-63); \<open>now\<close> is the value of \<open>performance.now()\<close>. The
  updater given to \<open>setStats\<close> is applied to the current stats. The frame counter is a
  whole number far below \<open>2 ^ 53\<close>, so counting is exact.
\<close>

definition updateFPS :: "real \<Rightarrow> component \<Rightarrow> component" where
  "updateFPS now st =
     (let st1 = st\<lparr>frameCountRef := frameCountRef st + 1\<rparr> in
      if lastTimeRef st1 = 0 then st1\<lparr>lastTimeRef := now\<rparr>
      else
        let elapsed = fl (now - lastTimeRef st1) in
        if elapsed \<ge> 1000 then
          let f = Math_round (fl (fl (real (frameCountRef st1) * 1000) / elapsed)) in
          st1\<lparr>stats := map_option (\<lambda>prev. prev\<lparr>fps := f\<rparr>) (stats st1),
              frameCountRef := 0, lastTimeRef := now\<rparr>
        else st1)"

section \<open>The initialisation effect\<close>

text \<open>
  The \<open>catch\<close> block of \<open>initViewer\<close> (lines 178-197), run by session \<open>s\<close> for the
  thrown value \<open>err\<close>. The call of \<open>onError\<close> (line 186) is not guarded:
  \<open>onError_throws\<close> is what this call throws if it is made (\<open>None\<close> when it returns).
  When it throws, the rest of the block (lines 188-196) is skipped, so the viewer is not
  disposed, and the exception leaves \<open>initViewer\<close>.
\<close>

definition error_message :: "js_value \<Rightarrow> string" where
  "error_message err = (case err of Error m \<Rightarrow> m | NonError \<Rightarrow> ''Failed to load model'')"

definition as_Error :: "js_value \<Rightarrow> js_value" where
  "as_Error err = (case err of Error m \<Rightarrow> Error m | NonError \<Rightarrow> Error (error_message err))"

definition catch_block :: "nat \<Rightarrow> js_value \<Rightarrow> js_value option \<Rightarrow> component \<Rightarrow> component" where
  "catch_block s err onError_throws st =
     (case sessions st s of
        None \<Rightarrow> st
      | Some sess \<Rightarrow>
          let st1 =
                (if \<not> aborted sess then
                   let st' = st\<lparr>error := Some (error_message err), isLoading := False\<rparr> in
                   (case onError (s_props sess) of
                      None \<Rightarrow> st'
                    | Some f \<Rightarrow> emit (OnError s (as_Error err)) st')
                 else st);
              thrown =
                (if \<not> aborted sess \<and> onError (s_props sess) \<noteq> None then onError_throws
                 else None)
          in case thrown of
               Some e \<Rightarrow> upd_session s (\<lambda>x. x\<lparr>pc := Finished\<rparr>) (emit (Unhandled s e) st1)
             | None \<Rightarrow>
                 let st2 =
                       (case viewer sess of
                          None \<Rightarrow> st1
                        | Some v \<Rightarrow>
                            if viewerRef st1 \<noteq> Some v then emit (Dispose v) st1 else st1)
                 in upd_session s (\<lambda>x. x\<lparr>pc := Finished\<rparr>) st2)"

text \<open>
  \<open>initViewer\<close> from its start to \<open>await viewer.addSplatScenes(...)\<close> (lines 74-126).
  \<open>ctor\<close> is \<open>None\<close> when \<open>new GaussianSplats3D.Viewer(...)\<close> returns the viewer, and
  \<open>Some (err, t)\<close> when it throws \<open>err\<close>, where \<open>t\<close> is what \<open>onError\<close> throws if the
  \<open>catch\<close> block calls it.
\<close>

type_synonym ctor_outcome = "(js_value \<times> js_value option) option"

definition initViewer :: "nat \<Rightarrow> ctor_outcome \<Rightarrow> component \<Rightarrow> component" where
  "initViewer s ctor st =
     (let st1 = st\<lparr>isLoading := True, error := None, loadProgress := 0\<rparr> in
      case ctor of
        Some (err, onError_throws) \<Rightarrow> catch_block s err onError_throws st1
      | None \<Rightarrow>
          let st2 = emit (Construct s) (upd_session s (\<lambda>x. x\<lparr>viewer := Some s\<rparr>) st1) in
          (case sessions st2 s of
             None \<Rightarrow> st2
           | Some sess \<Rightarrow>
               if aborted sess then
                 upd_session s (\<lambda>x. x\<lparr>pc := Finished\<rparr>) (emit (Dispose s) st2)
               else
                 emit (AddSplatScenes s (map url (arr_elems (models (s_props sess))))) st2))"

text \<open>
  The body of the effect (lines 65-200): the guard, the new closure, the call of
  \<open>initViewer\<close>. The result is the new state and the cleanup function returned
  (\<open>None\<close> for the early \<open>return\<close>).
\<close>

definition effect ::
  "GaussianSplatViewerProps \<Rightarrow> real \<Rightarrow> ctor_outcome \<Rightarrow> component \<Rightarrow> component \<times> nat option" where
  "effect p now ctor st =
     (if containerRef st = None \<or> length (arr_elems (models p)) = 0 then (st, None)
      else
        let s = next_sid st;
            st1 = st\<lparr>sessions := (sessions st)(s \<mapsto>
                       \<lparr>s_props = p, startTime = now, aborted = False, viewer = None,
                        pc = AwaitingLoad, raf = False\<rparr>),
                     next_sid := s + 1\<rparr>
        in (initViewer s ctor st1, Some s))"

text \<open>The cleanup function returned by the effect (lines 203-226).\<close>

definition cleanup :: "nat \<Rightarrow> component \<Rightarrow> component" where
  "cleanup s st =
     (let st1 = emit (Abort s) (upd_session s (\<lambda>x. x\<lparr>aborted := True\<rparr>) st) in
      case viewerRef st1 of
        None \<Rightarrow> st1
      | Some viewerToDispose \<Rightarrow> emit (Dispose viewerToDispose) (st1\<lparr>viewerRef := None\<rparr>))"

section \<open>React: commits of the component\<close>

text \<open>
  The dependency array of the effect (line 227). \<open>updateFPS\<close> is made by
  \<open>useCallback\<close> with no dependencies, so it is the same function in every render of
  one mount.
\<close>

definition updateFPS_ref :: addr where
  "updateFPS_ref = 0"

definition deps :: "GaussianSplatViewerProps \<Rightarrow> addr option list" where
  "deps p = [Some (arr_id (models p)), onLoad p, onProgress p, onError p, Some updateFPS_ref]"

text \<open>
  What React does with a \<open>useEffect\<close>: after the first render, and after every render
  whose dependencies differ from those of the previous one, it runs the cleanup function
  of the previous run (if one was returned) and then the effect; on unmount it runs the
  cleanup function. \<open>Render p c now ctor\<close> is a committed render with props \<open>p\<close>, where
  \<open>c\<close> is the element attached to \<open>containerRef\<close>, \<open>now\<close> the clock and \<open>ctor\<close> the
  outcome of the viewer's constructor should the effect run. The state describes one
  mount: after \<open>Unmount\<close> nothing is rendered any more.
\<close>

datatype commit =
    Render GaussianSplatViewerProps "addr option" real ctor_outcome
  | Unmount

definition run_cleanup :: "component \<Rightarrow> component" where
  "run_cleanup st = (case effect_cleanup st of None \<Rightarrow> st | Some s \<Rightarrow> cleanup s st)"

fun react_commit :: "commit \<Rightarrow> component \<Rightarrow> component" where
  "react_commit (Render p c now ctor) st =
     (if unmounted st then st
      else
        let st1 = st\<lparr>containerRef := c\<rparr> in
        if effect_deps st1 = Some (deps p) then st1
        else
          let st2 = run_cleanup st1;
              r = effect p now ctor st2
          in (fst r)\<lparr>effect_deps := Some (deps p), effect_cleanup := snd r\<rparr>)"
| "react_commit Unmount st =
     (if unmounted st then st
      else (run_cleanup st)\<lparr>containerRef := None, effect_deps := None,
                              effect_cleanup := None, unmounted := True\<rparr>)"

section \<open>The continuations of the session\<close>

text \<open>
  The progress callback given to \<open>addSplatScenes\<close> (lines 121-126).
\<close>

definition progress_callback :: "nat \<Rightarrow> real \<Rightarrow> component \<Rightarrow> component" where
  "progress_callback s percentComplete st =
     (case sessions st s of
        None \<Rightarrow> st
      | Some sess \<Rightarrow>
          if \<not> aborted sess then
            let st1 = st\<lparr>loadProgress := Math_round percentComplete\<rparr> in
            (case onProgress (s_props sess) of
               None \<Rightarrow> st1
             | Some f \<Rightarrow> emit (OnProgress s percentComplete) st1)
          else st)"

text \<open>
  What the environment decides when the promise of \<open>addSplatScenes\<close> is fulfilled: the
  clock, the splat count (\<open>None\<close> when \<open>getSplatMesh\<close> throws or gives no usable mesh),
  the commits React performs synchronously while \<open>onLoad\<close> runs (the callback may
  unmount or re-render the viewer before it returns), whether \<open>onLoad\<close> throws,
  whether \<open>viewer.start()\<close> throws, and what \<open>onError\<close> throws if the \<open>catch\<close> block
  calls it. The throwing calls of \<open>onLoad\<close> and \<open>viewer.start()\<close> are inside the
  \<open>try\<close> block.

  \<open>onProgress\<close> is called by the renderer from inside its loading code, so an exception
  of it goes to the renderer, which is free here to fulfil or reject the load, or to do
  neither. A commit that \<open>onProgress\<close> or \<open>onError\<close> causes while it runs is taken as
  the next event: the only thing the session reads after these calls is the comparison of
  its own unpublished viewer with \<open>viewerRef.current\<close>, which a commit can only reset
  to null.
\<close>

record resolve_env =
  r_now :: real
  r_mesh :: "int option"
  r_onLoad_commits :: "commit list"
  r_onLoad_throws :: "js_value option"
  r_start_throws :: "js_value option"
  r_onError_throws :: "js_value option"

text \<open>Lines 159-176: the last checkpoint, the start of the viewer and of the sampling loop.\<close>

definition start_branch ::
  "nat \<Rightarrow> js_value option \<Rightarrow> js_value option \<Rightarrow> component \<Rightarrow> component" where
  "start_branch s start_throws onError_throws st =
     (case sessions st s of
        None \<Rightarrow> st
      | Some sess \<Rightarrow>
          (case viewer sess of
             None \<Rightarrow> st
           | Some v \<Rightarrow>
               if \<not> aborted sess then
                 (case start_throws of
                    Some err \<Rightarrow> catch_block s err onError_throws st
                  | None \<Rightarrow>
                      emit (RequestFrame s)
                        (upd_session s (\<lambda>x. x\<lparr>raf := True, pc := Finished\<rparr>)
                          ((emit (Start v) st)\<lparr>viewerRef := Some v\<rparr>)))
               else upd_session s (\<lambda>x. x\<lparr>pc := Finished\<rparr>) (emit (Dispose v) st)))"

text \<open>Lines 127-176: the continuation of \<open>initViewer\<close> after the load has completed.\<close>

definition load_resolved :: "nat \<Rightarrow> resolve_env \<Rightarrow> component \<Rightarrow> component" where
  "load_resolved s env st =
     (case sessions st s of
        None \<Rightarrow> st
      | Some sess \<Rightarrow>
          (case viewer sess of
             None \<Rightarrow> st
           | Some v \<Rightarrow>
               if pc sess \<noteq> AwaitingLoad then st
               else if aborted sess then
                 upd_session s (\<lambda>x. x\<lparr>pc := Finished\<rparr>) (emit (Dispose v) st)
               else
                 let lt = Math_round (fl (r_now env - startTime sess));
                     sc = (case r_mesh env of None \<Rightarrow> 0 | Some n \<Rightarrow> n);
                     st1 = st\<lparr>stats := Some \<lparr>fps = 0, splatCount = sc, loadTime = lt\<rparr>,
                              isLoading := False\<rparr>
                 in (case onLoad (s_props sess) of
                       None \<Rightarrow> start_branch s (r_start_throws env) (r_onError_throws env) st1
                     | Some f \<Rightarrow>
                         let st2 = fold react_commit (r_onLoad_commits env) (emit (OnLoad s) st1) in
                         (case r_onLoad_throws env of
                            Some err \<Rightarrow> catch_block s err (r_onError_throws env) st2
                          | None \<Rightarrow>
                              start_branch s (r_start_throws env) (r_onError_throws env) st2))))"

text \<open>The promise of \<open>addSplatScenes\<close> is rejected with \<open>err\<close>: the \<open>catch\<close> block runs.\<close>

definition load_rejected :: "nat \<Rightarrow> js_value \<Rightarrow> js_value option \<Rightarrow> component \<Rightarrow> component" where
  "load_rejected s err onError_throws st =
     (case sessions st s of
        None \<Rightarrow> st
      | Some sess \<Rightarrow>
          if pc sess \<noteq> AwaitingLoad \<or> viewer sess = None then st
          else catch_block s err onError_throws st)"

text \<open>\<open>animate\<close> (lines 166-171), and the browser running it when it is queued.\<close>

definition animate :: "nat \<Rightarrow> real \<Rightarrow> component \<Rightarrow> component" where
  "animate s now st =
     (case sessions st s of
        None \<Rightarrow> st
      | Some sess \<Rightarrow>
          if viewerRef st \<noteq> None \<and> \<not> aborted sess then
            emit (RequestFrame s) (upd_session s (\<lambda>x. x\<lparr>raf := True\<rparr>) (updateFPS now st))
          else st)"

definition frame :: "nat \<Rightarrow> real \<Rightarrow> component \<Rightarrow> component" where
  "frame s now st =
     (case sessions st s of
        None \<Rightarrow> st
      | Some sess \<Rightarrow>
          if raf sess then animate s now (upd_session s (\<lambda>x. x\<lparr>raf := False\<rparr>) st) else st)"

text \<open>
  A promise returned by \<open>viewer.dispose()\<close> settles, fulfilled (\<open>None\<close>) or rejected.
  The handler attached by the cleanup function (lines 216-223) only writes a debug log,
  and \<open>try { await viewer.dispose(); } catch { }\<close> is followed by nothing.
\<close>

definition dispose_settled :: "nat \<Rightarrow> js_value option \<Rightarrow> component \<Rightarrow> component" where
  "dispose_settled v r st = st"

section \<open>Events and runs\<close>

text \<open>
  Everything happens on one event loop, so the life of a mounted viewer is a sequence of
  events, each handled to its end before the next: a commit by React, the renderer
  reporting progress to a session whose viewer exists, the promise of a load settling, the
  promise of a disposal settling, the browser running an animation frame callback.
  The promise of a load settles at most once, and only for a session that has called
  \<open>addSplatScenes\<close>; a call of \<open>addSplatScenes\<close> that throws at once is a load
  rejected before any other event. The renderer is free in everything else: in what it
  reports as progress and when, in whether and when a load settles. The third argument
  of \<open>LoadRejected\<close> is what \<open>onError\<close> throws if the \<open>catch\<close> block calls it.
\<close>

datatype event =
    Commit commit
  | Progress nat real
  | LoadResolved nat resolve_env
  | LoadRejected nat js_value "js_value option"
  | DisposeSettled nat "js_value option"
  | Frame nat real

fun step :: "event \<Rightarrow> component \<Rightarrow> component" where
  "step (Commit c) st = react_commit c st"
| "step (Progress s x) st =
     (case sessions st s of
        None \<Rightarrow> st
      | Some sess \<Rightarrow> if viewer sess = None then st else progress_callback s x st)"
| "step (LoadResolved s env) st = load_resolved s env st"
| "step (LoadRejected s err onError_throws) st = load_rejected s err onError_throws st"
| "step (DisposeSettled v r) st = dispose_settled v r st"
| "step (Frame s now) st = frame s now st"

definition run :: "event list \<Rightarrow> component" where
  "run evs = fold step evs initial"

section \<open>The application shell\<close>

text \<open>
  \<open>AVAILABLE_MODELS\<close> (data/models.ts). The selector hands one of these objects to
  \<open>handleSelectModel\<close>; they differ pairwise, so for them identity and equality of
  values coincide, and a selected model is compared by its value.
\<close>

definition catalog_entry :: "string \<Rightarrow> string \<Rightarrow> real \<Rightarrow> real \<Rightarrow> SplatModel" where
  "catalog_entry n u y k =
     \<lparr>name = n, url = u, position = Some (0, y, 0), rotation = Some (0, 0, 0, ''XYZ''),
      scale = Some (k, k, k)\<rparr>"

definition AVAILABLE_MODELS :: "SplatModel list" where
  "AVAILABLE_MODELS =
     [catalog_entry ''Bonsai''
        ''https://huggingface.co/cakewalk/splat-data/resolve/main/bonsai.splat'' 1 (3 / 2),
      catalog_entry ''Guitar''
        ''https://huggingface.co/cakewalk/splat-data/resolve/main/guitar.splat'' 1 (3 / 2),
      catalog_entry ''Train''
        ''https://huggingface.co/cakewalk/splat-data/resolve/main/train.splat'' 1 (3 / 2),
      catalog_entry ''Truck''
        ''https://huggingface.co/cakewalk/splat-data/resolve/main/truck.splat'' 1 (3 / 2),
      catalog_entry ''Nike (Antimatter15)'' ''https://antimatter15.com/splat/nike.splat'' 0 1,
      catalog_entry ''Plush (Antimatter15)'' ''https://antimatter15.com/splat/plush.splat'' 0 1]"

text \<open>
  The state of \<open>App\<close> (App.tsx, lines 8-9), together with what \<open>useMemo\<close> keeps
  between renders (the dependency \<open>[selectedModel]\<close> of the last computation and the
  array it returned) and the next free address, from which a newly created array takes
  its identity.
\<close>

record app =
  selectedModel :: "SplatModel option"
  app_isLoading :: bool
  memo_deps :: "SplatModel option option"
  modelArray :: models_array
  heap_next :: addr

definition handleSelectModel :: "SplatModel \<Rightarrow> app \<Rightarrow> app" where
  "handleSelectModel model st = st\<lparr>selectedModel := Some model, app_isLoading := True\<rparr>"

definition handleLoad :: "app \<Rightarrow> app" where
  "handleLoad st = st\<lparr>app_isLoading := False\<rparr>"

definition handleError :: "js_value \<Rightarrow> app \<Rightarrow> app" where
  "handleError err st = st\<lparr>app_isLoading := False\<rparr>"

text \<open>The \<open>onChange\<close> handler of the selector (ModelSelector.tsx).\<close>

definition select_onChange :: "string \<Rightarrow> app \<Rightarrow> app" where
  "select_onChange v st =
     (case find (\<lambda>m. name m = v) AVAILABLE_MODELS of
        None \<Rightarrow> st
      | Some model \<Rightarrow> handleSelectModel model st)"

text \<open>
  \<open>useMemo(() => selectedModel ? [selectedModel] : [], [selectedModel])\<close>
  (App.tsx, lines 28-31): the function is called again, and makes a new array, when the
  dependency differs from the one of the last computation; otherwise the array of the
  last computation is returned.
\<close>

definition useMemo_modelArray :: "app \<Rightarrow> app" where
  "useMemo_modelArray st =
     (if memo_deps st = Some (selectedModel st) then st
      else st\<lparr>modelArray :=
                 \<lparr>arr_id = heap_next st,
                  arr_elems = (case selectedModel st of None \<Rightarrow> [] | Some m \<Rightarrow> [m])\<rparr>,
               memo_deps := Some (selectedModel st),
               heap_next := heap_next st + 1\<rparr>)"

text \<open>
  \<open>handleLoad\<close> and \<open>handleError\<close> are made by \<open>useCallback\<close> with no dependencies:
  each is one function for the whole life of \<open>App\<close>. The viewer is rendered only
  when a model is selected (App.tsx, lines 99-104), with these props.
\<close>

definition handleLoad_ref :: addr where
  "handleLoad_ref = 1"

definition handleError_ref :: addr where
  "handleError_ref = 2"

definition viewer_props :: "app \<Rightarrow> GaussianSplatViewerProps option" where
  "viewer_props st =
     (case selectedModel st of
        None \<Rightarrow> None
      | Some m \<Rightarrow>
          Some \<lparr>models = modelArray st, onLoad = Some handleLoad_ref, onProgress = None,
                onError = Some handleError_ref\<rparr>)"

datatype app_event = SelectChange string | ViewerLoaded | ViewerError js_value

fun app_handle :: "app_event \<Rightarrow> app \<Rightarrow> app" where
  "app_handle (SelectChange v) st = select_onChange v st"
| "app_handle ViewerLoaded st = handleLoad st"
| "app_handle (ViewerError err) st = handleError err st"

text \<open>An event is handled, then \<open>App\<close> is rendered again.\<close>

definition app_step :: "app_event \<Rightarrow> app \<Rightarrow> app" where
  "app_step e st = useMemo_modelArray (app_handle e st)"

definition app_initial :: app where
  "app_initial =
     useMemo_modelArray
       \<lparr>selectedModel = None, app_isLoading = False, memo_deps = None,
        modelArray = \<lparr>arr_id = 0, arr_elems = []\<rparr>, heap_next = 0\<rparr>"

definition app_run :: "app_event list \<Rightarrow> app" where
  "app_run evs = fold app_step evs app_initial"

definition app_inv :: "app \<Rightarrow> bool" where
  "app_inv st \<longleftrightarrow> memo_deps st = Some (selectedModel st) \<and> arr_id (modelArray st) < heap_next st"

section \<open>Worked examples\<close>

definition bonsai :: SplatModel where
  "bonsai = catalog_entry ''Bonsai'' ''bonsai.splat'' 1 (3 / 2)"

definition props1 :: GaussianSplatViewerProps where
  "props1 = \<lparr>models = \<lparr>arr_id = 10, arr_elems = [bonsai]\<rparr>,
             onLoad = Some 20, onProgress = Some 21, onError = Some 22\<rparr>"

text \<open>The same array, another \<open>onLoad\<close> function.\<close>

definition props1_other_onLoad :: GaussianSplatViewerProps where
  "props1_other_onLoad = props1\<lparr>onLoad := Some 23\<rparr>"

definition props_empty :: GaussianSplatViewerProps where
  "props_empty = \<lparr>models = \<lparr>arr_id = 11, arr_elems = []\<rparr>,
             onLoad = Some 20, onProgress = Some 21, onError = Some 22\<rparr>"

definition env1 :: resolve_env where
  "env1 = \<lparr>r_now = 2500, r_mesh = Some 1000000, r_onLoad_commits = [],
           r_onLoad_throws = None, r_start_throws = None, r_onError_throws = None\<rparr>"

text \<open>A viewer that has loaded and started its model.\<close>

definition live_state :: component where
  "live_state = run [Commit (Render props1 (Some 1) 1000 None), LoadResolved 0 env1]"

text \<open>The sampler in the middle of a second.\<close>

definition sampling_state :: component where
  "sampling_state =
     initial\<lparr>stats := Some \<lparr>fps = 0, splatCount = 10, loadTime = 5\<rparr>, frameCountRef := 59,
             lastTimeRef := 2000\<rparr>"

text \<open>
  The sampler as the specification words it: count the frame; once 1000 ms have passed
  since the last sample point, publish the rate and reset counter and sample point;
  otherwise publish and reset nothing. The elapsed time and the rate are the doubles the
  program computes.
\<close>

definition sampler_spec :: "real \<Rightarrow> component \<Rightarrow> component" where
  "sampler_spec now st =
     (let count = frameCountRef st + 1;
          elapsed = fl (now - lastTimeRef st)
      in if elapsed \<ge> 1000 then
           st\<lparr>stats := map_option
                       (\<lambda>prev. prev\<lparr>fps := Math_round (fl (fl (real count * 1000) / elapsed))\<rparr>)
                       (stats st),
              frameCountRef := 0, lastTimeRef := now\<rparr>
         else st\<lparr>frameCountRef := count\<rparr>)"

section \<open>Observing runs\<close>

text \<open>
  Every action belongs to one session (a viewer carries the number of the session that
  constructed it). \<open>callback_of\<close> gives the session on whose behalf a callback of the
  props is called or a frame of the sampling loop is scheduled.
\<close>

fun sid_of :: "action \<Rightarrow> nat" where
  "sid_of (Construct s) = s"
| "sid_of (AddSplatScenes s us) = s"
| "sid_of (Start s) = s"
| "sid_of (Dispose s) = s"
| "sid_of (Abort s) = s"
| "sid_of (OnLoad s) = s"
| "sid_of (OnProgress s x) = s"
| "sid_of (OnError s e) = s"
| "sid_of (RequestFrame s) = s"
| "sid_of (Unhandled s e) = s"

fun callback_of :: "action \<Rightarrow> nat option" where
  "callback_of (OnLoad s) = Some s"
| "callback_of (OnProgress s x) = Some s"
| "callback_of (OnError s e) = Some s"
| "callback_of (RequestFrame s) = Some s"
| "callback_of a = None"

text \<open>
  What follows the first occurrence of an action in a trace. A session is quiet after
  its abort when nothing that follows \<open>Abort s\<close> is a callback or a scheduled frame of
  \<open>s\<close>.
\<close>

fun after :: "'a \<Rightarrow> 'a list \<Rightarrow> 'a list" where
  "after a [] = []"
| "after a (x # xs) = (if x = a then xs else after a xs)"

definition quiet_after_abort :: "nat \<Rightarrow> action list \<Rightarrow> bool" where
  "quiet_after_abort s tr = list_all (\<lambda>a. callback_of a \<noteq> Some s) (after (Abort s) tr)"

text \<open>The number of calls of \<open>onError\<close> on behalf of a session.\<close>

fun is_OnError :: "nat \<Rightarrow> action \<Rightarrow> bool" where
  "is_OnError s (OnError t e) = (t = s)"
| "is_OnError s a = False"

definition errors_of :: "nat \<Rightarrow> action list \<Rightarrow> nat" where
  "errors_of s tr = length (filter (is_OnError s) tr)"

text \<open>The number of exceptions that have left \<open>initViewer\<close> in a session.\<close>

fun is_Unhandled :: "nat \<Rightarrow> action \<Rightarrow> bool" where
  "is_Unhandled s (Unhandled t e) = (t = s)"
| "is_Unhandled s a = False"

definition unhandled_of :: "nat \<Rightarrow> action list \<Rightarrow> nat" where
  "unhandled_of s tr = length (filter (is_Unhandled s) tr)"

text \<open>
  A viewer is live from its \<open>start()\<close> to its \<open>dispose()\<close>. \<open>live_after L tr\<close> is the
  set of live viewers after the actions \<open>tr\<close>, when \<open>L\<close> were live before;
  \<open>never_two_live L tr\<close> says that before, between and after the actions of \<open>tr\<close>
  there is at most one of them.
\<close>

fun live_after :: "nat set \<Rightarrow> action list \<Rightarrow> nat set" where
  "live_after L [] = L"
| "live_after L (Start v # tr) = live_after (insert v L) tr"
| "live_after L (Dispose v # tr) = live_after (L - {v}) tr"
| "live_after L (a # tr) = live_after L tr"

fun never_two_live :: "nat set \<Rightarrow> action list \<Rightarrow> bool" where
  "never_two_live L [] = (card L \<le> 1)"
| "never_two_live L (a # tr) = (card L \<le> 1 \<and> never_two_live (live_after L [a]) tr)"

text \<open>
  The progress values passed to \<open>onProgress\<close> on behalf of a session, and the values
  the renderer reported to that session, both in order.
\<close>

fun progress_of :: "nat \<Rightarrow> action list \<Rightarrow> real list" where
  "progress_of s [] = []"
| "progress_of s (OnProgress t x # tr) = (if t = s then x # progress_of s tr else progress_of s tr)"
| "progress_of s (a # tr) = progress_of s tr"

fun reported_to :: "nat \<Rightarrow> event list \<Rightarrow> real list" where
  "reported_to s [] = []"
| "reported_to s (Progress t x # evs) = (if t = s then x # reported_to s evs else reported_to s evs)"
| "reported_to s (e # evs) = reported_to s evs"

text \<open>
  The invariant of all runs, session by session, in terms of the registered cleanup
  \<open>c\<close>, the published viewer \<open>vr\<close> and the trace \<open>tr\<close>: a session that is not aborted
  is the one whose cleanup is registered, and has not been aborted in the trace; an aborted
  one has been aborted in the trace; its viewer carries its number; before the load has
  settled it has neither started its viewer nor reported an error; a published viewer
  belongs to a finished session that is not aborted and has reported no error; the viewer has been disposed once if
  the session has finished without being published (any more) and without an exception
  leaving \<open>initViewer\<close>, and never otherwise; the session is quiet after its abort; it has
  reported at most one error, and none if it has started its viewer; an exception leaves
  \<open>initViewer\<close> only from a call of \<open>onError\<close>.
\<close>

definition session_ok ::
  "nat option \<Rightarrow> nat option \<Rightarrow> action list \<Rightarrow> nat \<Rightarrow> session \<Rightarrow> bool" where
  "session_ok c vr tr s sess \<longleftrightarrow>
      (\<not> aborted sess \<longrightarrow> c = Some s \<and> Abort s \<notin> set tr)
    \<and> (aborted sess \<longrightarrow> Abort s \<in> set tr)
    \<and> (viewer sess = None \<or> viewer sess = Some s)
    \<and> (pc sess = AwaitingLoad \<longrightarrow> Start s \<notin> set tr \<and> errors_of s tr = 0)
    \<and> (vr = Some s \<longrightarrow>
         \<not> aborted sess \<and> pc sess = Finished \<and> viewer sess = Some s \<and> errors_of s tr = 0)
    \<and> count_list tr (Dispose s) =
         (if viewer sess = Some s \<and> pc sess = Finished \<and> vr \<noteq> Some s \<and> unhandled_of s tr = 0
          then 1 else 0)
    \<and> quiet_after_abort s tr
    \<and> errors_of s tr \<le> 1
    \<and> unhandled_of s tr \<le> errors_of s tr
    \<and> (Start s \<in> set tr \<longrightarrow> errors_of s tr = 0)"

definition InvC ::
  "(nat \<rightharpoonup> session) \<Rightarrow> nat option \<Rightarrow> nat option \<Rightarrow> nat \<Rightarrow> action list \<Rightarrow> bool" where
  "InvC S vr c n tr \<longleftrightarrow>
      (\<forall>s sess. S s = Some sess \<longrightarrow> session_ok c vr tr s sess)
    \<and> (\<forall>s. (S s \<noteq> None) = (s < n))
    \<and> (\<forall>s. c = Some s \<longrightarrow> s < n)
    \<and> (\<forall>v. vr = Some v \<longrightarrow> v < n)
    \<and> list_all (\<lambda>a. sid_of a < n) tr
    \<and> live_after {} tr = set_option vr
    \<and> never_two_live {} tr"

definition Inv :: "component \<Rightarrow> bool" where
  "Inv st = InvC (sessions st) (viewerRef st) (effect_cleanup st) (next_sid st) (trace st)"

section \<open>Worked runs\<close>

definition loading :: "event list" where
  "loading = [Commit (Render props1 (Some 1) 1000 None)]"

definition unmounted_while_loading :: "event list" where
  "unmounted_while_loading = [Commit (Render props1 (Some 1) 1000 None), Commit Unmount]"

definition unmounted_while_live :: "event list" where
  "unmounted_while_live =
     [Commit (Render props1 (Some 1) 1000 None), LoadResolved 0 env1, Frame 0 3000,
      Commit Unmount, Frame 0 3100]"

definition reloaded :: "event list" where
  "reloaded =
     [Commit (Render props1 (Some 1) 1000 None), LoadResolved 0 env1,
      Commit (Render props1_other_onLoad (Some 1) 3000 None), LoadResolved 1 env1]"

definition erratic_progress :: "event list" where
  "erratic_progress =
     [Commit (Render props1 (Some 1) 1000 None), Progress 0 50, Progress 0 20,
      LoadResolved 0 env1]"

text \<open>A load after which \<open>viewer.start()\<close> throws, and one after which \<open>onLoad\<close> throws.\<close>

definition env_start_throws :: resolve_env where
  "env_start_throws = env1\<lparr>r_start_throws := Some (Error ''context lost'')\<rparr>"

definition env_onLoad_throws :: resolve_env where
  "env_onLoad_throws = env1\<lparr>r_onLoad_throws := Some (Error ''callback failed'')\<rparr>"

text \<open>A load that is rejected, with an \<open>onError\<close> that throws.\<close>

definition failed_handler :: "event list" where
  "failed_handler =
     [Commit (Render props1 (Some 1) 1000 None),
      LoadRejected 0 (Error ''404'') (Some (Error ''handler failed''))]"

text \<open>A load after which \<open>onLoad\<close> unmounts the viewer before it returns.\<close>

definition env_onLoad_unmounts :: resolve_env where
  "env_onLoad_unmounts = env1\<lparr>r_onLoad_commits := [Unmount]\<rparr>"

section \<open>The frame-rate sampler: properties\<close>

lemmas run_defs =
  run_def initial_def effect_def initViewer_def catch_block_def cleanup_def run_cleanup_def
  deps_def updateFPS_ref_def progress_callback_def start_branch_def load_resolved_def
  load_rejected_def animate_def frame_def dispose_settled_def emit_def upd_session_def
  updateFPS_def Math_round_def error_message_def as_Error_def Let_def
  fl_def binade_def round_even_def compute_bitlen

lemmas example_defs =
  bonsai_def catalog_entry_def props1_def props1_other_onLoad_def props_empty_def env1_def
  live_state_def sampling_state_def

lemma fl_exact:
  "fl 500 = 500" "fl 1000 = 1000" "fl 1001 = 1001" "fl 1500 = 1500" "fl 2000 = 2000"
  "fl 60000 = 60000" "fl 60 = 60"
  by (simp_all add: fl_def binade_def round_even_def compute_bitlen Let_def)

text \<open>
  Rounding at work: the double nearest to one tenth; and the elapsed time between the
  doubles nearest to 1.3 and 1001.3, which is computed as 1000 though their exact
  difference is less.
\<close>

lemma fl_examples:
  "fl (1 / 10) = 3602879701896397 / 36028797018963968"
  "fl (13 / 10) = 5854679515581645 / 4503599627370496"
  "fl (10013 / 10) = 4403763971568435 / 4398046511104"
  "4403763971568435 / 4398046511104 - 5854679515581645 / 4503599627370496 < (1000 :: real)"
  "fl (4403763971568435 / 4398046511104 - 5854679515581645 / 4503599627370496) = 1000"
  by (simp_all add: fl_def binade_def round_even_def compute_bitlen Let_def)

text \<open>
  The sampler at these two clock readings, with 59 frames counted before: the elapsed time
  is computed as 1000, so the rate 60 is published.
\<close>

lemma updateFPS_rounded_example:
  "stats (updateFPS (4403763971568435 / 4398046511104)
            (sampling_state\<lparr>lastTimeRef := 5854679515581645 / 4503599627370496\<rparr>))
     = Some \<lparr>fps = 60, splatCount = 10, loadTime = 5\<rparr>"
  by (simp add: updateFPS_def sampling_state_def initial_def Math_round_def Let_def
      fl_def binade_def round_even_def compute_bitlen)

lemma live_state_sampler:
  "frameCountRef live_state = 0" "lastTimeRef live_state = 0"
  "stats live_state = Some \<lparr>fps = 0, splatCount = 1000000, loadTime = 1500\<rparr>"
  "sessions live_state 0 =
     Some \<lparr>s_props = props1, startTime = 1000, aborted = False, viewer = Some 0,
           pc = Finished, raf = True\<rparr>"
  "viewerRef live_state = Some 0"
  by (simp_all add: run_defs example_defs)

text \<open>
  C8, as stated, fails at the first tick after a load. The viewer was rendered at 1000 ms
  and its load completed at 2500 ms; the first animation frame comes at 3000 ms. The sample
  point is still 0, so 3000 ms have elapsed since it, yet the counter is not reset: it
  is 1 afterwards, where the specification gives 0.
\<close>

theorem updateFPS_first_tick_counterexample:
  "fl (3000 - lastTimeRef live_state) \<ge> 1000
   \<and> frameCountRef (step (Frame 0 3000) live_state) = 1
   \<and> frameCountRef (updateFPS 3000 live_state) = 1
   \<and> frameCountRef (sampler_spec 3000 live_state) = 0
   \<and> updateFPS 3000 live_state \<noteq> sampler_spec 3000 live_state"
proof -
  have 1: "fl (3000 - lastTimeRef live_state) \<ge> 1000"
    by (simp add: live_state_sampler fl_def binade_def round_even_def compute_bitlen Let_def)
  have 2: "frameCountRef (updateFPS 3000 live_state) = 1"
    by (simp add: updateFPS_def live_state_sampler Let_def)
  have 3: "frameCountRef (step (Frame 0 3000) live_state) = 1"
    by (simp add: frame_def animate_def emit_def upd_session_def updateFPS_def
        live_state_sampler Let_def)
  have 4: "frameCountRef (sampler_spec 3000 live_state) = 0"
    using 1 by (simp add: sampler_spec_def Let_def)
  from 2 4 have "updateFPS 3000 live_state \<noteq> sampler_spec 3000 live_state" by auto
  with 1 2 3 4 show ?thesis by simp
qed

text \<open>
  C8, amended: the sampler counts every sampled frame. While the sample point is still 0
  a tick only sets the sample point to the current time. Otherwise it does what the
  specification says, with the elapsed time and the rate as the program computes them in
  double arithmetic: when the elapsed time is at least 1000 ms it sets the fps of the
  current stats (if there are any) to round(count * 1000 / elapsed) and resets the counter
  to zero and the sample point to the current time; when it is less it publishes nothing
  and resets nothing.
\<close>

theorem updateFPS_sampler:
  "updateFPS now st =
     (if lastTimeRef st = 0
      then st\<lparr>frameCountRef := frameCountRef st + 1, lastTimeRef := now\<rparr>
      else sampler_spec now st)"
  by (simp add: updateFPS_def sampler_spec_def Let_def)

theorem updateFPS_sampler_witness:
  "lastTimeRef sampling_state \<noteq> 0
   \<and> updateFPS 3000 sampling_state =
       sampling_state\<lparr>stats := Some \<lparr>fps = 60, splatCount = 10, loadTime = 5\<rparr>,
                      frameCountRef := 0, lastTimeRef := 3000\<rparr>
   \<and> updateFPS 2500 sampling_state = sampling_state\<lparr>frameCountRef := 60\<rparr>
   \<and> lastTimeRef live_state = 0
   \<and> updateFPS 3000 live_state = live_state\<lparr>frameCountRef := 1, lastTimeRef := 3000\<rparr>"
  using updateFPS_sampler [of 3000 sampling_state] updateFPS_sampler [of 2500 sampling_state]
    updateFPS_sampler [of 3000 live_state]
  by (simp add: sampler_spec_def sampling_state_def initial_def live_state_sampler
      Math_round_def fl_exact Let_def)

lemma updateFPS_stats:
  "map_option splatCount (stats (updateFPS now st)) = map_option splatCount (stats st)
   \<and> map_option loadTime (stats (updateFPS now st)) = map_option loadTime (stats st)
   \<and> (stats (updateFPS now st) = None) = (stats st = None)"
  by (cases "stats st") (simp_all add: updateFPS_def Let_def)

lemma frame_stats:
  "stats (frame s now st) = stats st \<or> stats (frame s now st) = stats (updateFPS now st)"
  by (simp add: frame_def animate_def emit_def upd_session_def updateFPS_def Let_def
      split: option.splits)

text \<open>
  C10: a tick of the sampler (\<open>updateFPS\<close> itself, or the animation frame callback that
  calls it) leaves the splat count and the load time of the stats as they are, and
  stats that are null stay null.
\<close>

theorem sampler_keeps_other_stats:
  "map_option splatCount (stats (updateFPS now st)) = map_option splatCount (stats st)
   \<and> map_option loadTime (stats (updateFPS now st)) = map_option loadTime (stats st)
   \<and> (stats (updateFPS now st) = None) = (stats st = None)
   \<and> map_option splatCount (stats (step (Frame s now) st)) = map_option splatCount (stats st)
   \<and> map_option loadTime (stats (step (Frame s now) st)) = map_option loadTime (stats st)
   \<and> (stats (step (Frame s now) st) = None) = (stats st = None)"
  using updateFPS_stats [of now st] frame_stats [of s now st] by auto

theorem sampler_keeps_other_stats_witness:
  "stats (updateFPS 3001 sampling_state) = Some \<lparr>fps = 60, splatCount = 10, loadTime = 5\<rparr>
   \<and> map_option splatCount (stats (updateFPS 3001 sampling_state)) = Some 10
   \<and> map_option loadTime (stats (updateFPS 3001 sampling_state)) = Some 5
   \<and> stats (updateFPS 3001 initial) = None"
  using sampler_keeps_other_stats [of 3001 sampling_state 0]
    sampler_keeps_other_stats [of 3001 initial 0]
  by (simp add: updateFPS_def sampling_state_def initial_def Math_round_def Let_def
      fl_def binade_def round_even_def compute_bitlen)

section \<open>The guard of the effect\<close>

text \<open>
  C9: when the container is absent or the \<open>models\<close> list is empty, the effect does
  nothing: the state is unchanged (no session, no viewer, no action, no callback) and no
  cleanup function is returned. A first render without a container leaves the component
  without any session or action.
\<close>

theorem effect_guard:
  "containerRef st = None \<or> arr_elems (models p) = [] \<Longrightarrow>
     effect p now ctor st = (st, None)
     \<and> trace (react_commit (Render p None now ctor) initial) = []
     \<and> sessions (react_commit (Render p None now ctor) initial) = Map.empty
     \<and> effect_cleanup (react_commit (Render p None now ctor) initial) = None"
  by (auto simp add: effect_def initial_def run_cleanup_def)

theorem effect_guard_witness:
  "arr_elems (models props_empty) = []
   \<and> effect props_empty 1000 None live_state = (live_state, None)
   \<and> containerRef initial = None
   \<and> effect props1 1000 None initial = (initial, None)"
  using effect_guard [of live_state props_empty 1000 None]
    effect_guard [of initial props1 1000 None]
  by (simp add: props_empty_def initial_def)

section \<open>Renders that do not re-run the effect\<close>

text \<open>
  C1, as stated, fails: a render with the very same \<open>models\<close> array and container but
  another \<open>onLoad\<close> function re-runs the effect. The session is cancelled, the live
  viewer is disposed and a new viewer is constructed.
\<close>

theorem rerender_counterexample:
  "models props1_other_onLoad = models props1
   \<and> trace (run [Commit (Render props1 (Some 1) 1000 None), LoadResolved 0 env1,
                  Commit (Render props1_other_onLoad (Some 1) 3000 None)])
     = [Construct 0, AddSplatScenes 0 [''bonsai.splat''], OnLoad 0, Start 0, RequestFrame 0,
        Abort 0, Dispose 0, Construct 1, AddSplatScenes 1 [''bonsai.splat'']]"
  by (simp add: run_defs example_defs)

text \<open>
  C1, amended: a render in which the \<open>models\<close> array and the \<open>onLoad\<close>,
  \<open>onProgress\<close> and \<open>onError\<close> functions are all the same references as in the previous
  render does not re-run the effect: nothing changes but the container reference React
  attaches, so no session is cancelled, no viewer disposed and none constructed.
\<close>

theorem same_deps_no_rerun:
  assumes "effect_deps st = Some (deps q)"
    and "arr_id (models p) = arr_id (models q)"
    and "onLoad p = onLoad q" and "onProgress p = onProgress q" and "onError p = onError q"
  shows "react_commit (Render p c now ctor) st =
           (if unmounted st then st else st\<lparr>containerRef := c\<rparr>)"
  using assms by (simp add: deps_def)

theorem same_deps_no_rerun_witness:
  "effect_deps live_state = Some (deps props1)
   \<and> containerRef live_state = Some 1
   \<and> react_commit (Render props1 (Some 1) 3000 None) live_state = live_state
   \<and> viewerRef live_state = Some 0
   \<and> trace live_state =
        [Construct 0, AddSplatScenes 0 [''bonsai.splat''], OnLoad 0, Start 0, RequestFrame 0]"
proof -
  have a: "effect_deps live_state = Some (deps props1)"
    and b: "containerRef live_state = Some 1" and c: "\<not> unmounted live_state"
    by (simp_all add: run_defs example_defs)
  have "react_commit (Render props1 (Some 1) 3000 None) live_state
          = live_state\<lparr>containerRef := Some 1\<rparr>"
    using same_deps_no_rerun [OF a refl refl refl refl, of "Some 1" 3000 None] c by simp
  then have "react_commit (Render props1 (Some 1) 3000 None) live_state = live_state"
    using b by simp
  moreover have "viewerRef live_state = Some 0"
    and "trace live_state =
        [Construct 0, AddSplatScenes 0 [''bonsai.splat''], OnLoad 0, Start 0, RequestFrame 0]"
    by (simp_all add: run_defs example_defs)
  ultimately show ?thesis using a b by simp
qed

section \<open>Teardown\<close>

lemma run_cleanup_trace:
  "effect_cleanup st = Some s \<Longrightarrow>
     trace (run_cleanup st) =
       trace st @ Abort s # (case viewerRef st of None \<Rightarrow> [] | Some v \<Rightarrow> [Dispose v])"
  by (simp add: run_cleanup_def cleanup_def emit_def upd_session_def Let_def split: option.splits)

lemma run_cleanup_fields:
  "viewerRef (run_cleanup st) = (if effect_cleanup st = None then viewerRef st else None)"
  "error (run_cleanup st) = error st"
  "isLoading (run_cleanup st) = isLoading st"
  "next_sid (run_cleanup st) = next_sid st"
  "containerRef (run_cleanup st) = containerRef st"
  "unmounted (run_cleanup st) = unmounted st"
  "effect_deps (run_cleanup st) = effect_deps st"
  by (simp_all add: run_cleanup_def cleanup_def emit_def upd_session_def Let_def
      split: option.splits)

lemma run_cleanup_containerRef:
  "run_cleanup (st\<lparr>containerRef := c\<rparr>) = (run_cleanup st)\<lparr>containerRef := c\<rparr>"
  by (simp add: run_cleanup_def cleanup_def emit_def upd_session_def Let_def split: option.splits)

lemma effect_trace_ok:
  "containerRef st \<noteq> None \<Longrightarrow> arr_elems (models p) \<noteq> [] \<Longrightarrow>
   trace (fst (effect p now None st)) =
     trace st @ [Construct (next_sid st),
                 AddSplatScenes (next_sid st) (map url (arr_elems (models p)))]"
  by (simp add: effect_def initViewer_def emit_def upd_session_def Let_def)

lemma effect_trace_prefix: "prefix (trace st) (trace (fst (effect p now ctor st)))"
  by (simp add: effect_def initViewer_def catch_block_def emit_def upd_session_def Let_def
      split: option.splits prod.splits)

lemma run_cleanup_aborts:
  "effect_cleanup st = Some s \<Longrightarrow>
     sessions (run_cleanup st) =
       (sessions st)(s := map_option (\<lambda>x. x\<lparr>aborted := True\<rparr>) (sessions st s))"
  by (simp add: run_cleanup_def cleanup_def emit_def upd_session_def Let_def split: option.splits)

lemma effect_keeps_sessions:
  "t \<noteq> next_sid st \<Longrightarrow> sessions (fst (effect p now ctor st)) t = sessions st t"
  by (simp add: effect_def initViewer_def catch_block_def emit_def upd_session_def Let_def
      split: option.splits prod.splits)

text \<open>
  C4: a teardown is the run of the cleanup function of the current session \<open>s\<close>, on
  unmount or before the effect runs again for new dependencies. It sets the abort flag of
  \<open>s\<close> and changes no other session; its first action is the abort of \<open>s\<close>; the only
  other one is the disposal of the published viewer, if there is one, which is
  unpublished; the error state is untouched and \<open>onError\<close> is not called. After the
  unmount, and after the render with new dependencies, session \<open>s\<close> is aborted.
  When the promise of a disposal settles, rejected or not, nothing changes at all, and a
  later render with new dependencies, a container and models tears down and constructs
  a new viewer as usual.
\<close>

theorem teardown_contract:
  assumes "effect_cleanup st = Some s" and "\<not> unmounted st"
  shows "trace (run_cleanup st) =
           trace st @ Abort s # (case viewerRef st of None \<Rightarrow> [] | Some v \<Rightarrow> [Dispose v])
       \<and> sessions (run_cleanup st) =
           (sessions st)(s := map_option (\<lambda>x. x\<lparr>aborted := True\<rparr>) (sessions st s))
       \<and> map_option aborted (sessions (run_cleanup st) s) = map_option (\<lambda>x. True) (sessions st s)
       \<and> viewerRef (run_cleanup st) = None \<and> error (run_cleanup st) = error st
       \<and> trace (react_commit Unmount st) = trace (run_cleanup st)
       \<and> sessions (react_commit Unmount st) = sessions (run_cleanup st)
       \<and> (effect_deps st \<noteq> Some (deps p) \<longrightarrow>
            prefix (trace (run_cleanup st)) (trace (react_commit (Render p c now ctor) st))
            \<and> (s \<noteq> next_sid st \<longrightarrow>
                 sessions (react_commit (Render p c now ctor) st) s = sessions (run_cleanup st) s))
       \<and> step (DisposeSettled v r) st' = st'
       \<and> (effect_deps st \<noteq> Some (deps p) \<and> arr_elems (models p) \<noteq> [] \<longrightarrow>
            trace (react_commit (Render p (Some e) now None) (step (DisposeSettled v r) st)) =
              trace (run_cleanup st)
                @ [Construct (next_sid st),
                   AddSplatScenes (next_sid st) (map url (arr_elems (models p)))])"
proof -
  have 1: "prefix (trace (run_cleanup st)) (trace (react_commit (Render p c now ctor) st))"
    if "effect_deps st \<noteq> Some (deps p)"
    using that assms(2) effect_trace_prefix [of "run_cleanup (st\<lparr>containerRef := c\<rparr>)" p now ctor]
    by (simp add: Let_def run_cleanup_containerRef run_cleanup_trace)
  have 2: "sessions (react_commit (Render p c now ctor) st) s = sessions (run_cleanup st) s"
    if "effect_deps st \<noteq> Some (deps p)" "s \<noteq> next_sid st"
    using that assms
      effect_keeps_sessions [of s "run_cleanup (st\<lparr>containerRef := c\<rparr>)" p now ctor]
    by (simp add: Let_def run_cleanup_containerRef run_cleanup_fields)
  have 3: "trace (react_commit (Render p (Some e) now None) (step (DisposeSettled v r) st)) =
              trace (run_cleanup st)
                @ [Construct (next_sid st),
                   AddSplatScenes (next_sid st) (map url (arr_elems (models p)))]"
    if "effect_deps st \<noteq> Some (deps p)" "arr_elems (models p) \<noteq> []"
    using that assms(2) effect_trace_ok [of "run_cleanup (st\<lparr>containerRef := Some e\<rparr>)" p now]
    by (simp add: Let_def dispose_settled_def run_cleanup_containerRef run_cleanup_fields)
  have 4: "sessions (run_cleanup st) =
           (sessions st)(s := map_option (\<lambda>x. x\<lparr>aborted := True\<rparr>) (sessions st s))"
    using assms(1) by (rule run_cleanup_aborts)
  have 5: "map_option aborted (sessions (run_cleanup st) s)
             = map_option (\<lambda>x. True) (sessions st s)"
    unfolding 4 by (cases "sessions st s") simp_all
  have 6: "trace (run_cleanup st) =
           trace st @ Abort s # (case viewerRef st of None \<Rightarrow> [] | Some v \<Rightarrow> [Dispose v])"
    "viewerRef (run_cleanup st) = None" "error (run_cleanup st) = error st"
    "trace (react_commit Unmount st) = trace (run_cleanup st)"
    "sessions (react_commit Unmount st) = sessions (run_cleanup st)"
    "step (DisposeSettled v r) st' = st'"
    using assms by (simp_all add: run_cleanup_trace run_cleanup_fields dispose_settled_def)
  show ?thesis using 1 2 3 4 5 6 by blast
qed

theorem teardown_contract_witness:
  "effect_cleanup live_state = Some 0 \<and> \<not> unmounted live_state
   \<and> effect_deps live_state \<noteq> Some (deps props1_other_onLoad)
   \<and> arr_elems (models props1_other_onLoad) \<noteq> []
   \<and> map_option aborted (sessions live_state 0) = Some False
   \<and> map_option aborted (sessions (run_cleanup live_state) 0) = Some True
   \<and> map_option aborted (sessions (react_commit Unmount live_state) 0) = Some True
   \<and> map_option aborted
       (sessions (react_commit (Render props1_other_onLoad (Some 1) 3000 None) live_state) 0)
     = Some True
   \<and> trace (react_commit Unmount live_state) = trace live_state @ [Abort 0, Dispose 0]
   \<and> trace (react_commit (Render props1_other_onLoad (Some 1) 3000 None)
              (step (DisposeSettled 0 (Some NonError)) live_state))
       = trace live_state @ [Abort 0, Dispose 0, Construct 1, AddSplatScenes 1 [''bonsai.splat'']]"
proof -
  have a: "effect_cleanup live_state = Some 0" and b: "\<not> unmounted live_state"
    and c: "effect_deps live_state \<noteq> Some (deps props1_other_onLoad)"
    and d: "arr_elems (models props1_other_onLoad) \<noteq> []"
    and e: "viewerRef live_state = Some 0" and f: "next_sid live_state = 1"
    and h: "sessions live_state 0 =
              Some \<lparr>s_props = props1, startTime = 1000, aborted = False, viewer = Some 0,
                    pc = Finished, raf = True\<rparr>"
    by (simp_all add: run_defs example_defs)
  have g: "map url (arr_elems (models props1_other_onLoad)) = [''bonsai.splat'']"
    by (simp add: bonsai_def catalog_entry_def props1_def props1_other_onLoad_def)
  note t = teardown_contract [OF a b, of props1_other_onLoad "Some 1" 3000 None 0
      "Some NonError" live_state 1]
  have 1: "trace (run_cleanup live_state) = trace live_state @ [Abort 0, Dispose 0]"
    using t e by simp
  have 2: "trace (react_commit Unmount live_state) = trace (run_cleanup live_state)"
    using t by blast
  have 3: "trace (react_commit (Render props1_other_onLoad (Some 1) 3000 None)
              (step (DisposeSettled 0 (Some NonError)) live_state))
       = trace (run_cleanup live_state)
           @ [Construct (next_sid live_state),
              AddSplatScenes (next_sid live_state)
                (map url (arr_elems (models props1_other_onLoad)))]"
    using t c d by blast
  have 4: "map_option aborted (sessions (run_cleanup live_state) 0) = Some True"
    using t h by simp
  have 5: "sessions (react_commit Unmount live_state) = sessions (run_cleanup live_state)"
    using t by blast
  have 6: "sessions (react_commit (Render props1_other_onLoad (Some 1) 3000 None) live_state) 0
             = sessions (run_cleanup live_state) 0"
    using t c f by simp
  have 7: "map_option aborted (sessions live_state 0) = Some False" using h by simp
  show ?thesis
    using a b c d 4 7
    by (simp only: 1 2 3 5 6 f g append_assoc append_Cons append_Nil simp_thms)
qed

section \<open>The shell keeps the models array stable\<close>

lemma app_inv_render:
  "arr_id (modelArray st) < heap_next st \<or> memo_deps st \<noteq> Some (selectedModel st) \<Longrightarrow>
   app_inv (useMemo_modelArray st)"
  by (auto simp add: app_inv_def useMemo_modelArray_def)

lemma app_inv_initial: "app_inv app_initial"
  by (simp add: app_initial_def app_inv_def useMemo_modelArray_def)

lemma app_handle_keeps:
  "memo_deps (app_handle e st) = memo_deps st"
  "modelArray (app_handle e st) = modelArray st"
  "heap_next (app_handle e st) = heap_next st"
  by (cases e; simp add: select_onChange_def handleSelectModel_def handleLoad_def handleError_def
      split: option.splits)+

lemma app_inv_step: "app_inv st \<Longrightarrow> app_inv (app_step e st)"
  unfolding app_step_def
  by (rule app_inv_render) (simp add: app_inv_def app_handle_keeps)

lemma app_inv_fold: "app_inv st \<Longrightarrow> app_inv (fold app_step evs st)"
  by (induction evs arbitrary: st) (simp_all add: app_inv_step)

lemma app_inv_run: "app_inv (app_run evs)"
  unfolding app_run_def by (rule app_inv_fold) (rule app_inv_initial)

lemma app_step_array_id:
  "app_inv st \<Longrightarrow>
   (arr_id (modelArray (app_step e st)) = arr_id (modelArray st))
     = (selectedModel (app_step e st) = selectedModel st)"
  by (auto simp add: app_step_def app_inv_def useMemo_modelArray_def app_handle_keeps)

lemma app_step_array:
  assumes "app_inv st"
  shows "(modelArray (app_step e st) = modelArray st)
           = (selectedModel (app_step e st) = selectedModel st)"
proof
  assume "modelArray (app_step e st) = modelArray st"
  then have "arr_id (modelArray (app_step e st)) = arr_id (modelArray st)" by simp
  then show "selectedModel (app_step e st) = selectedModel st"
    using app_step_array_id [OF assms] by simp
next
  assume "selectedModel (app_step e st) = selectedModel st"
  then show "modelArray (app_step e st) = modelArray st"
    using assms
    by (auto simp add: app_step_def app_inv_def useMemo_modelArray_def app_handle_keeps
        split: if_splits)
qed

lemma app_step_unselecting:
  "e = ViewerLoaded \<or> e = ViewerError err \<Longrightarrow>
   selectedModel (app_step e st) = selectedModel st"
  by (auto simp add: app_step_def useMemo_modelArray_def handleLoad_def handleError_def)

lemma names_distinct: "distinct (map name AVAILABLE_MODELS)"
  by (simp add: AVAILABLE_MODELS_def catalog_entry_def)

text \<open>
  C6: after any sequence of events of the shell, the render that follows one more event
  passes the same array (the same reference, hence the same viewer props) exactly when
  the selected model is the same as in the render before; in particular the load and
  error callbacks of the viewer never change the array.
\<close>

theorem shell_stable_models:
  "(modelArray (app_step e (app_run evs)) = modelArray (app_run evs))
     = (selectedModel (app_step e (app_run evs)) = selectedModel (app_run evs))
   \<and> (arr_id (modelArray (app_step e (app_run evs))) = arr_id (modelArray (app_run evs)))
     = (selectedModel (app_step e (app_run evs)) = selectedModel (app_run evs))
   \<and> modelArray (app_step ViewerLoaded (app_run evs)) = modelArray (app_run evs)
   \<and> modelArray (app_step (ViewerError err) (app_run evs)) = modelArray (app_run evs)
   \<and> (selectedModel (app_step e (app_run evs)) = selectedModel (app_run evs)
        \<longrightarrow> viewer_props (app_step e (app_run evs)) = viewer_props (app_run evs))"
proof -
  have i: "app_inv (app_run evs)" by (rule app_inv_run)
  have 1: "modelArray (app_step ViewerLoaded (app_run evs)) = modelArray (app_run evs)"
    using app_step_array [OF i, of ViewerLoaded] app_step_unselecting [of ViewerLoaded] by simp
  have 2: "modelArray (app_step (ViewerError err) (app_run evs)) = modelArray (app_run evs)"
    using app_step_array [OF i, of "ViewerError err"]
      app_step_unselecting [of "ViewerError err" err] by simp
  have 3: "viewer_props (app_step e (app_run evs)) = viewer_props (app_run evs)"
    if "selectedModel (app_step e (app_run evs)) = selectedModel (app_run evs)"
    using that app_step_array [OF i, of e] by (simp add: viewer_props_def split: option.splits)
  show ?thesis using app_step_array [OF i, of e] app_step_array_id [OF i, of e] 1 2 3 by blast
qed

theorem shell_stable_models_witness:
  "selectedModel (app_step ViewerLoaded (app_run [SelectChange ''Guitar'']))
     = selectedModel (app_run [SelectChange ''Guitar''])
   \<and> viewer_props (app_step ViewerLoaded (app_run [SelectChange ''Guitar'']))
     = viewer_props (app_run [SelectChange ''Guitar''])
   \<and> arr_id (modelArray (app_run [SelectChange ''Guitar''])) = 1
   \<and> arr_id (modelArray (app_step (SelectChange ''Train'') (app_run [SelectChange ''Guitar''])))
     = 2"
proof -
  have a: "selectedModel (app_step ViewerLoaded (app_run [SelectChange ''Guitar'']))
     = selectedModel (app_run [SelectChange ''Guitar''])"
    by (simp add: app_step_def handleLoad_def useMemo_modelArray_def)
  have b: "arr_id (modelArray (app_run [SelectChange ''Guitar''])) = 1"
    and c: "arr_id (modelArray (app_step (SelectChange ''Train'')
              (app_run [SelectChange ''Guitar'']))) = 2"
    by (simp_all add: app_run_def app_step_def app_initial_def useMemo_modelArray_def
        select_onChange_def handleSelectModel_def AVAILABLE_MODELS_def catalog_entry_def)
  show ?thesis
    using shell_stable_models [of ViewerLoaded "[SelectChange ''Guitar'']" NonError] a b c
    by simp
qed

section \<open>The invariant of the viewer\<close>

text \<open>
  Every handler acts for one session: it changes the record of that session only, adds
  actions of that session only, and moves \<open>viewerRef\<close> only between null and the viewer
  of that session. \<open>InvC_act\<close> shows that such a change keeps the invariant when the
  acting session satisfies its own part afterwards; the handlers are then treated one by
  one, from what they do to the sessions and to the trace.
\<close>

lemma after_append:
  "after a (xs @ ys) = (if a \<in> set xs then after a xs @ ys else after a ys)"
  by (induction xs) auto

lemma after_notin: "a \<notin> set xs \<Longrightarrow> after a xs = []"
  by (induction xs) auto

lemma quiet_Nil [simp]: "quiet_after_abort s []"
  by (simp add: quiet_after_abort_def)

lemma quiet_Cons [simp]:
  "quiet_after_abort s (a # tr) =
     (if a = Abort s then list_all (\<lambda>a. callback_of a \<noteq> Some s) tr else quiet_after_abort s tr)"
  by (simp add: quiet_after_abort_def)

lemma quiet_append [simp]:
  "quiet_after_abort s (tr @ as) =
     (quiet_after_abort s tr \<and>
      (if Abort s \<in> set tr then list_all (\<lambda>a. callback_of a \<noteq> Some s) as
       else quiet_after_abort s as))"
  by (auto simp add: quiet_after_abort_def after_append after_notin)

lemma errors_Nil [simp]: "errors_of s [] = 0"
  by (simp add: errors_of_def)

lemma errors_Cons [simp]:
  "errors_of s (a # tr) = (if is_OnError s a then 1 else 0) + errors_of s tr"
  by (simp add: errors_of_def)

lemma errors_append [simp]: "errors_of s (tr @ as) = errors_of s tr + errors_of s as"
  by (simp add: errors_of_def)

lemma unhandled_Nil [simp]: "unhandled_of s [] = 0"
  by (simp add: unhandled_of_def)

lemma unhandled_Cons [simp]:
  "unhandled_of s (a # tr) = (if is_Unhandled s a then 1 else 0) + unhandled_of s tr"
  by (simp add: unhandled_of_def)

lemma unhandled_append [simp]:
  "unhandled_of s (tr @ as) = unhandled_of s tr + unhandled_of s as"
  by (simp add: unhandled_of_def)

lemma live_after_append [simp]: "live_after L (tr @ as) = live_after (live_after L tr) as"
  by (induction L tr rule: live_after.induct) simp_all

lemma never_two_live_card: "never_two_live L tr \<Longrightarrow> card L \<le> 1"
  by (cases tr) simp_all

lemma never_two_live_append [simp]:
  "never_two_live L (tr @ as) = (never_two_live L tr \<and> never_two_live (live_after L tr) as)"
proof (induction tr arbitrary: L)
  case Nil
  then show ?case using never_two_live_card [of L as] by auto
next
  case (Cons a tr)
  then show ?case by (cases a) simp_all
qed

lemma card_set_option [simp]: "card (set_option x) \<le> Suc 0"
  by (cases x) simp_all

lemma card_set_option_Diff [simp]: "card (set_option x - A) \<le> Suc 0"
proof -
  have "finite (set_option x)" by (cases x) simp_all
  then have "card (set_option x - A) \<le> card (set_option x)"
    by (intro card_mono) auto
  then show ?thesis using card_set_option [of x] by linarith
qed

lemma fresh_notin: "list_all (\<lambda>a. sid_of a < n) tr \<Longrightarrow> n \<le> sid_of a \<Longrightarrow> a \<notin> set tr"
  by (auto simp add: list_all_iff)

lemma fresh_errors: "list_all (\<lambda>a. sid_of a < n) tr \<Longrightarrow> n \<le> s \<Longrightarrow> errors_of s tr = 0"
proof (induction tr)
  case Nil
  then show ?case by simp
next
  case (Cons a tr)
  then show ?case by (cases a) auto
qed

lemma fresh_unhandled:
  "list_all (\<lambda>a. sid_of a < n) tr \<Longrightarrow> n \<le> s \<Longrightarrow> unhandled_of s tr = 0"
proof (induction tr)
  case Nil
  then show ?case by simp
next
  case (Cons a tr)
  then show ?case by (cases a) auto
qed

lemma quiet_no_abort: "Abort s \<notin> set tr \<Longrightarrow> quiet_after_abort s tr"
  by (induction tr) auto

lemma foreign:
  assumes "list_all (\<lambda>a. sid_of a = s) as" and "t \<noteq> s"
  shows "Abort t \<notin> set as" and "Start t \<notin> set as" and "count_list as (Dispose t) = 0"
    and "errors_of t as = 0" and "list_all (\<lambda>a. callback_of a \<noteq> Some t) as"
    and "quiet_after_abort t as" and "unhandled_of t as = 0"
proof -
  have a: "\<And>a. a \<in> set as \<Longrightarrow> sid_of a \<noteq> t"
    using assms by (auto simp add: list_all_iff)
  show 1: "Abort t \<notin> set as" using a [of "Abort t"] by auto
  show "Start t \<notin> set as" using a [of "Start t"] by auto
  have "Dispose t \<notin> set as" using a [of "Dispose t"] by auto
  then show "count_list as (Dispose t) = 0" by simp
  show "errors_of t as = 0"
    using a
  proof (induction as)
    case Nil
    then show ?case by simp
  next
    case (Cons x xs)
    then have "sid_of x \<noteq> t" by simp
    then have "\<not> is_OnError t x" by (cases x) auto
    then show ?case using Cons by simp
  qed
  show "list_all (\<lambda>a. callback_of a \<noteq> Some t) as"
    unfolding list_all_iff
  proof
    fix x assume "x \<in> set as"
    then have "sid_of x \<noteq> t" by (rule a)
    then show "callback_of x \<noteq> Some t" by (cases x) auto
  qed
  show "quiet_after_abort t as" using 1 by (rule quiet_no_abort)
  show "unhandled_of t as = 0"
    using a
  proof (induction as)
    case Nil
    then show ?case by simp
  next
    case (Cons x xs)
    then have "sid_of x \<noteq> t" by simp
    then have "\<not> is_Unhandled t x" by (cases x) auto
    then show ?case using Cons by simp
  qed
qed

lemma session_ok_frame:
  assumes ok: "session_ok c vr tr t sess" and ne: "t \<noteq> s"
    and as: "list_all (\<lambda>a. sid_of a = s) as"
    and vr: "vr' = vr \<or> ((vr' = None \<or> vr' = Some s) \<and> (vr = None \<or> vr = Some s))"
  shows "session_ok c vr' (tr @ as) t sess"
proof -
  note f = foreign [OF as ne]
  have v: "(vr' = Some t) = (vr = Some t)" using vr ne by auto
  show ?thesis
    using ok unfolding session_ok_def v
    by (simp add: f)
qed

lemma session_ok_aborted:
  "session_ok c vr tr t sess \<Longrightarrow> aborted sess \<Longrightarrow> session_ok c' vr tr t sess"
  unfolding session_ok_def by simp

lemma session_ok_cong:
  "session_ok c vr tr s sess \<Longrightarrow> aborted sess' = aborted sess \<Longrightarrow> viewer sess' = viewer sess \<Longrightarrow>
   pc sess' = pc sess \<Longrightarrow> session_ok c vr tr s sess'"
  unfolding session_ok_def by simp

lemma InvD: "InvC S vr c n tr \<Longrightarrow> S s = Some sess \<Longrightarrow> session_ok c vr tr s sess"
  unfolding InvC_def by blast

lemma InvD_lt: "InvC S vr c n tr \<Longrightarrow> S s = Some sess \<Longrightarrow> s < n"
  unfolding InvC_def by (metis option.distinct(1))

lemma InvC_act:
  assumes inv: "InvC S vr c n tr" and s: "S s = Some sess"
    and as: "list_all (\<lambda>a. sid_of a = s) as"
    and vr: "vr' = vr \<or> ((vr' = None \<or> vr' = Some s) \<and> (vr = None \<or> vr = Some s))"
    and own: "session_ok c vr' (tr @ as) s sess'"
    and live: "live_after (set_option vr) as = set_option vr'"
    and two: "never_two_live (set_option vr) as"
  shows "InvC (S(s \<mapsto> sess')) vr' c n (tr @ as)"
proof -
  have lt: "s < n" using inv s by (rule InvD_lt)
  have 1: "\<forall>t sess''. (S(s \<mapsto> sess')) t = Some sess'' \<longrightarrow> session_ok c vr' (tr @ as) t sess''"
  proof (intro allI impI)
    fix t sess'' assume h: "(S(s \<mapsto> sess')) t = Some sess''"
    show "session_ok c vr' (tr @ as) t sess''"
    proof (cases "t = s")
      case True
      then show ?thesis using h own by simp
    next
      case False
      then have "S t = Some sess''" using h by simp
      then have "session_ok c vr tr t sess''" using inv by (rule InvD [rotated])
      then show ?thesis using False as vr by (rule session_ok_frame)
    qed
  qed
  have 2: "\<forall>t. ((S(s \<mapsto> sess')) t \<noteq> None) = (t < n)"
    using inv lt s unfolding InvC_def by auto
  have 3: "\<forall>v. vr' = Some v \<longrightarrow> v < n"
    using inv lt vr unfolding InvC_def by auto
  have 4: "list_all (\<lambda>a. sid_of a < n) (tr @ as)"
    using inv lt as unfolding InvC_def by (auto simp add: list_all_iff)
  have 5: "live_after {} (tr @ as) = set_option vr'" "never_two_live {} (tr @ as)"
    using inv live two unfolding InvC_def by simp_all
  show ?thesis
    unfolding InvC_def using 1 2 3 4 5 inv unfolding InvC_def by blast
qed

lemma InvC_all_aborted:
  assumes "InvC S vr c n tr" and "c = None"
  shows "vr = None" and "\<And>s sess. S s = Some sess \<Longrightarrow> aborted sess"
proof -
  show a: "\<And>s sess. S s = Some sess \<Longrightarrow> aborted sess"
    using assms InvD [of S vr c n tr] unfolding session_ok_def by blast
  show "vr = None"
  proof (rule ccontr)
    assume "vr \<noteq> None"
    then obtain v where v: "vr = Some v" by auto
    then have "v < n" using assms unfolding InvC_def by blast
    then obtain sess where s: "S v = Some sess" using assms unfolding InvC_def by blast
    then have "session_ok c vr tr v sess" using assms InvD by blast
    then have "\<not> aborted sess" using v unfolding session_ok_def by blast
    then show False using a s by blast
  qed
qed

lemma InvC_registered:
  assumes "InvC S vr c n tr" and "S s = Some sess" and "\<not> aborted sess"
  shows "c = Some s"
  using InvD [OF assms(1,2)] assms(3) unfolding session_ok_def by blast

lemma InvC_published:
  assumes "InvC S vr c n tr" and "vr = Some v"
  shows "c = Some v"
proof -
  have "v < n" using assms unfolding InvC_def by blast
  then obtain sess where s: "S v = Some sess" using assms unfolding InvC_def by blast
  then have "session_ok c vr tr v sess" using assms InvD by blast
  then have "\<not> aborted sess" using assms(2) unfolding session_ok_def by blast
  then show ?thesis using assms(1) s by (rule InvC_registered [rotated 2])
qed

lemma Inv_act:
  assumes inv: "Inv st" and s: "sessions st s = Some sess"
    and S: "\<And>t. sessions st' t = (if t = s then Some sess' else sessions st t)"
    and tr: "trace st' = trace st @ as"
    and c: "effect_cleanup st' = effect_cleanup st" and n: "next_sid st' = next_sid st"
    and as: "list_all (\<lambda>a. sid_of a = s) as"
    and vr: "viewerRef st' = viewerRef st \<or>
             ((viewerRef st' = None \<or> viewerRef st' = Some s) \<and>
              (viewerRef st = None \<or> viewerRef st = Some s))"
    and own: "session_ok (effect_cleanup st) (viewerRef st') (trace st @ as) s sess'"
    and live: "live_after (set_option (viewerRef st)) as = set_option (viewerRef st')"
    and two: "never_two_live (set_option (viewerRef st)) as"
  shows "Inv st'"
proof -
  have "sessions st' = (sessions st)(s \<mapsto> sess')" using S by auto
  then show ?thesis
    unfolding Inv_def tr c n
    using InvC_act [OF inv [unfolded Inv_def] s as vr own live two] by simp
qed

lemma Inv_session:
  "Inv st \<Longrightarrow> sessions st s = Some sess \<Longrightarrow>
   session_ok (effect_cleanup st) (viewerRef st) (trace st) s sess"
  unfolding Inv_def by (rule InvD)

lemma not_published:
  "session_ok c vr tr s sess \<Longrightarrow> pc sess = AwaitingLoad \<Longrightarrow> vr \<noteq> Some s"
  unfolding session_ok_def by auto

lemma set_option_Diff: "vr \<noteq> Some s \<Longrightarrow> set_option vr - {s} = set_option vr"
  by (cases vr) auto

lemma catch_block_footprint:
  assumes "sessions st s = Some sess"
  shows "trace (catch_block s err ot st) =
           trace st
           @ (if \<not> aborted sess \<and> onError (s_props sess) \<noteq> None
              then [OnError s (as_Error err)] else [])
           @ (case (if \<not> aborted sess \<and> onError (s_props sess) \<noteq> None then ot else None) of
                Some e \<Rightarrow> [Unhandled s e]
              | None \<Rightarrow>
                  (case viewer sess of
                     None \<Rightarrow> []
                   | Some v \<Rightarrow> if viewerRef st \<noteq> Some v then [Dispose v] else []))"
    and "sessions (catch_block s err ot st) t =
           (if t = s then Some (sess\<lparr>pc := Finished\<rparr>) else sessions st t)"
    and "viewerRef (catch_block s err ot st) = viewerRef st"
    and "effect_cleanup (catch_block s err ot st) = effect_cleanup st"
    and "next_sid (catch_block s err ot st) = next_sid st"
    and "effect_deps (catch_block s err ot st) = effect_deps st"
    and "unmounted (catch_block s err ot st) = unmounted st"
    and "containerRef (catch_block s err ot st) = containerRef st"
  using assms
  by (simp_all add: catch_block_def emit_def upd_session_def Let_def split: option.splits)

lemma Inv_catch_block:
  assumes inv: "Inv st" and s: "sessions st s = Some sess" and pc: "pc sess = AwaitingLoad"
  shows "Inv (catch_block s err ot st)"
proof -
  note ok = Inv_session [OF inv s]
  have np: "viewerRef st \<noteq> Some s" using ok pc by (rule not_published)
  have v: "viewer sess = None \<or> viewer sess = Some s" using ok unfolding session_ok_def by blast
  define called where "called \<longleftrightarrow> \<not> aborted sess \<and> onError (s_props sess) \<noteq> None"
  define es where "es = (if called then [OnError s (as_Error err)] else [])"
  define ds where "ds = (if called \<and> ot \<noteq> None then [Unhandled s (the ot)]
                         else if viewer sess = Some s then [Dispose s] else [])"
  have tr: "trace (catch_block s err ot st) = trace st @ (es @ ds)"
    using v np unfolding catch_block_footprint(1) [OF s] es_def ds_def called_def
    by (cases ot) auto
  have e0: "errors_of s (trace st) = 0" "unhandled_of s (trace st) = 0"
    "Start s \<notin> set (trace st)" "count_list (trace st) (Dispose s) = 0"
    using ok pc unfolding session_ok_def by simp_all
  have ab: "called \<Longrightarrow> \<not> aborted sess" by (simp add: called_def)
  show ?thesis
  proof (rule Inv_act [OF inv s catch_block_footprint(2) [OF s] tr
        catch_block_footprint(4) [OF s] catch_block_footprint(5) [OF s]])
    show "list_all (\<lambda>a. sid_of a = s) (es @ ds)" by (simp add: es_def ds_def)
    show "viewerRef (catch_block s err ot st) = viewerRef st \<or>
      (viewerRef (catch_block s err ot st) = None \<or> viewerRef (catch_block s err ot st) = Some s) \<and>
      (viewerRef st = None \<or> viewerRef st = Some s)"
      by (simp add: catch_block_footprint(3) [OF s])
    show "session_ok (effect_cleanup st) (viewerRef (catch_block s err ot st))
            (trace st @ es @ ds) s (sess\<lparr>pc := Finished\<rparr>)"
    proof (cases called)
      case True
      then show ?thesis
        using ok np e0 ab [OF True] unfolding session_ok_def catch_block_footprint(3) [OF s]
        by (simp add: es_def ds_def)
    next
      case False
      then show ?thesis
        using ok np e0 unfolding session_ok_def catch_block_footprint(3) [OF s]
        by (simp add: es_def ds_def)
    qed
    show "live_after (set_option (viewerRef st)) (es @ ds)
            = set_option (viewerRef (catch_block s err ot st))"
      using np by (simp add: es_def ds_def catch_block_footprint(3) [OF s] set_option_Diff)
    show "never_two_live (set_option (viewerRef st)) (es @ ds)"
      by (simp add: es_def ds_def)
  qed
qed

lemma Inv_cong:
  "sessions st' = sessions st \<Longrightarrow> viewerRef st' = viewerRef st \<Longrightarrow>
   effect_cleanup st' = effect_cleanup st \<Longrightarrow> next_sid st' = next_sid st \<Longrightarrow>
   trace st' = trace st \<Longrightarrow> Inv st' = Inv st"
  by (simp add: Inv_def)

lemma Inv_progress_callback:
  assumes inv: "Inv st"
  shows "Inv (progress_callback s x st)"
proof (cases "sessions st s")
  case None
  then show ?thesis using inv by (simp add: progress_callback_def)
next
  case (Some sess)
  note ok = Inv_session [OF inv Some]
  define as where "as = (if \<not> aborted sess \<and> onProgress (s_props sess) \<noteq> None
                          then [OnProgress s x] else [])"
  show ?thesis
  proof (rule Inv_act [OF inv Some, where sess' = sess and as = as])
    show "sessions (progress_callback s x st) t = (if t = s then Some sess else sessions st t)" for t
      using Some by (simp add: progress_callback_def emit_def Let_def split: option.splits)
    show "trace (progress_callback s x st) = trace st @ as"
      using Some by (simp add: as_def progress_callback_def emit_def Let_def split: option.splits)
    show "effect_cleanup (progress_callback s x st) = effect_cleanup st"
      and "next_sid (progress_callback s x st) = next_sid st"
      using Some by (simp_all add: progress_callback_def emit_def Let_def split: option.splits)
    have v: "viewerRef (progress_callback s x st) = viewerRef st"
      using Some by (simp add: progress_callback_def emit_def Let_def split: option.splits)
    show "viewerRef (progress_callback s x st) = viewerRef st \<or>
      (viewerRef (progress_callback s x st) = None \<or> viewerRef (progress_callback s x st) = Some s) \<and>
      (viewerRef st = None \<or> viewerRef st = Some s)"
      using v by simp
    show "list_all (\<lambda>a. sid_of a = s) as" by (simp add: as_def)
    show "session_ok (effect_cleanup st) (viewerRef (progress_callback s x st)) (trace st @ as) s sess"
      using ok unfolding session_ok_def v by (auto simp add: as_def)
    show "live_after (set_option (viewerRef st)) as = set_option (viewerRef (progress_callback s x st))"
      by (simp add: as_def v)
    show "never_two_live (set_option (viewerRef st)) as" by (simp add: as_def)
  qed
qed

lemma updateFPS_footprint:
  "sessions (updateFPS now st) = sessions st" "viewerRef (updateFPS now st) = viewerRef st"
  "effect_cleanup (updateFPS now st) = effect_cleanup st" "next_sid (updateFPS now st) = next_sid st"
  "trace (updateFPS now st) = trace st" "effect_deps (updateFPS now st) = effect_deps st"
  "unmounted (updateFPS now st) = unmounted st" "containerRef (updateFPS now st) = containerRef st"
  by (simp_all add: updateFPS_def Let_def)

lemma frame_footprint:
  assumes "sessions st s = Some sess" and "raf sess"
  shows "sessions (frame s now st) t =
           (if t = s then Some (sess\<lparr>raf := (viewerRef st \<noteq> None \<and> \<not> aborted sess)\<rparr>)
            else sessions st t)"
    and "trace (frame s now st) =
           trace st @ (if viewerRef st \<noteq> None \<and> \<not> aborted sess then [RequestFrame s] else [])"
    and "viewerRef (frame s now st) = viewerRef st"
    and "effect_cleanup (frame s now st) = effect_cleanup st"
    and "next_sid (frame s now st) = next_sid st"
  using assms
  by (simp_all add: frame_def animate_def emit_def upd_session_def updateFPS_footprint)

lemma Inv_frame:
  assumes inv: "Inv st"
  shows "Inv (frame s now st)"
proof (cases "sessions st s")
  case None
  then show ?thesis using inv by (simp add: frame_def)
next
  case (Some sess)
  note ok = Inv_session [OF inv Some]
  show ?thesis
  proof (cases "raf sess")
    case False
    then show ?thesis using inv Some by (simp add: frame_def)
  next
    case True
    note fp = frame_footprint [OF Some True]
    define as where "as = (if viewerRef st \<noteq> None \<and> \<not> aborted sess then [RequestFrame s] else [])"
    show ?thesis
    proof (rule Inv_act [OF inv Some fp(1) _ fp(4) fp(5), where as = as])
      show "trace (frame s now st) = trace st @ as" by (simp add: fp(2) as_def)
      show "viewerRef (frame s now st) = viewerRef st \<or>
        (viewerRef (frame s now st) = None \<or> viewerRef (frame s now st) = Some s) \<and>
        (viewerRef st = None \<or> viewerRef st = Some s)"
        by (simp add: fp(3))
      show "list_all (\<lambda>a. sid_of a = s) as" by (simp add: as_def)
      show "session_ok (effect_cleanup st) (viewerRef (frame s now st)) (trace st @ as) s
              (sess\<lparr>raf := (viewerRef st \<noteq> None \<and> \<not> aborted sess)\<rparr>)"
        using ok unfolding session_ok_def fp(3) by (auto simp add: as_def)
      show "live_after (set_option (viewerRef st)) as = set_option (viewerRef (frame s now st))"
        by (simp add: as_def fp(3))
      show "never_two_live (set_option (viewerRef st)) as" by (simp add: as_def)
    qed
  qed
qed

lemma cleanup_footprint:
  assumes "sessions st c = Some sess"
  shows "sessions (cleanup c st) t =
           (if t = c then Some (sess\<lparr>aborted := True\<rparr>) else sessions st t)"
    and "trace (cleanup c st) =
           trace st @ Abort c # (case viewerRef st of None \<Rightarrow> [] | Some v \<Rightarrow> [Dispose v])"
    and "viewerRef (cleanup c st) = None"
    and "effect_cleanup (cleanup c st) = effect_cleanup st"
    and "next_sid (cleanup c st) = next_sid st"
  using assms
  by (simp_all add: cleanup_def emit_def upd_session_def Let_def split: option.splits)

lemma Inv_registered_session:
  assumes "Inv st" and "effect_cleanup st = Some c"
  shows "\<exists>sess. sessions st c = Some sess"
  using assms unfolding Inv_def InvC_def by (metis option.exhaust)

lemma Inv_cleanup:
  assumes inv: "Inv st" and c: "effect_cleanup st = Some c"
  shows "Inv (cleanup c st)"
proof -
  obtain sess where s: "sessions st c = Some sess"
    using Inv_registered_session [OF inv c] by blast
  note ok = Inv_session [OF inv s]
  note fp = cleanup_footprint [OF s]
  have vr: "viewerRef st = None \<or> viewerRef st = Some c"
    using InvC_published [OF inv [unfolded Inv_def]] c by (cases "viewerRef st") auto
  define ds where "ds = (if viewerRef st = Some c then [Dispose c] else [])"
  have tr: "trace (cleanup c st) = trace st @ (Abort c # ds)"
    using vr by (auto simp add: fp(2) ds_def)
  have own: "session_ok (effect_cleanup st) None (trace st @ Abort c # ds) c
            (sess\<lparr>aborted := True\<rparr>)"
  proof (cases "viewerRef st = Some c")
    case True
    then show ?thesis using ok unfolding session_ok_def by (simp add: ds_def)
  next
    case False
    then show ?thesis using ok unfolding session_ok_def by (simp add: ds_def)
  qed
  have live: "live_after (set_option (viewerRef st)) (Abort c # ds) = {}"
    using vr by (auto simp add: ds_def)
  show ?thesis
  proof (rule Inv_act [OF inv s fp(1) tr fp(4) fp(5)])
    show "list_all (\<lambda>a. sid_of a = c) (Abort c # ds)" by (simp add: ds_def)
    show "viewerRef (cleanup c st) = viewerRef st \<or>
      (viewerRef (cleanup c st) = None \<or> viewerRef (cleanup c st) = Some c) \<and>
      (viewerRef st = None \<or> viewerRef st = Some c)"
      using vr by (simp add: fp(3))
    show "session_ok (effect_cleanup st) (viewerRef (cleanup c st)) (trace st @ Abort c # ds) c
            (sess\<lparr>aborted := True\<rparr>)"
      using own by (simp add: fp(3))
    show "live_after (set_option (viewerRef st)) (Abort c # ds) = set_option (viewerRef (cleanup c st))"
      using live by (simp add: fp(3))
    show "never_two_live (set_option (viewerRef st)) (Abort c # ds)"
      by (simp add: ds_def)
  qed
qed

lemma Inv_run_cleanup:
  assumes inv: "Inv st"
  shows "Inv (run_cleanup st)"
    and "viewerRef (run_cleanup st) = None"
    and "\<And>s sess. sessions (run_cleanup st) s = Some sess \<Longrightarrow> aborted sess"
proof -
  show "Inv (run_cleanup st)"
    using inv Inv_cleanup [OF inv] by (simp add: run_cleanup_def split: option.splits)
  show "viewerRef (run_cleanup st) = None"
  proof (cases "effect_cleanup st")
    case None
    then show ?thesis
      using InvC_all_aborted(1) [OF inv [unfolded Inv_def]] by (simp add: run_cleanup_def)
  next
    case (Some c)
    obtain sess where s: "sessions st c = Some sess"
      using Inv_registered_session [OF inv Some] by blast
    show ?thesis using Some cleanup_footprint(3) [OF s] by (simp add: run_cleanup_def)
  qed
  show "aborted sess" if h: "sessions (run_cleanup st) s = Some sess" for s sess
  proof (cases "effect_cleanup st")
    case None
    then show ?thesis
      using InvC_all_aborted(2) [OF inv [unfolded Inv_def]] h by (simp add: run_cleanup_def)
  next
    case (Some c)
    obtain sc where s: "sessions st c = Some sc"
      using Inv_registered_session [OF inv Some] by blast
    show ?thesis
    proof (cases "s = c")
      case True
      then show ?thesis using h Some cleanup_footprint(1) [OF s, of s] by (auto simp add: run_cleanup_def)
    next
      case False
      then have "sessions st s = Some sess"
        using h Some cleanup_footprint(1) [OF s, of s] by (simp add: run_cleanup_def)
      then show ?thesis
        using InvC_registered [OF inv [unfolded Inv_def], of s sess] Some False by auto
    qed
  qed
qed

lemma fresh_facts:
  assumes "list_all (\<lambda>a. sid_of a < n) tr"
  shows "Abort n \<notin> set tr" and "Start n \<notin> set tr" and "count_list tr (Dispose n) = 0"
    and "errors_of n tr = 0" and "quiet_after_abort n tr" and "unhandled_of n tr = 0"
proof -
  show a: "Abort n \<notin> set tr" using fresh_notin [OF assms, of "Abort n"] by simp
  show "Start n \<notin> set tr" using fresh_notin [OF assms, of "Start n"] by simp
  have "Dispose n \<notin> set tr" using fresh_notin [OF assms, of "Dispose n"] by simp
  then show "count_list tr (Dispose n) = 0" by simp
  show "errors_of n tr = 0" using assms by (rule fresh_errors) simp
  show "quiet_after_abort n tr" using a by (rule quiet_no_abort)
  show "unhandled_of n tr = 0" using assms by (rule fresh_unhandled) simp
qed

lemma InvC_unregister:
  assumes inv: "InvC S vr c n tr" and ab: "\<forall>s sess. S s = Some sess \<longrightarrow> aborted sess"
  shows "InvC S vr None n tr"
proof -
  have "session_ok None vr tr s sess" if "S s = Some sess" for s sess
    using InvD [OF inv that] ab that by (blast intro: session_ok_aborted)
  then show ?thesis using inv unfolding InvC_def by simp
qed

lemma InvC_new_session:
  assumes inv: "InvC S vr c n tr" and vr: "vr = None"
    and ab: "\<forall>s sess. S s = Some sess \<longrightarrow> aborted sess"
    and new: "\<not> aborted new" "pc new = AwaitingLoad" "viewer new = None"
  shows "InvC (S(n \<mapsto> new)) None (Some n) (Suc n) tr"
proof -
  have fr: "list_all (\<lambda>a. sid_of a < n) tr" using inv unfolding InvC_def by blast
  note ff = fresh_facts [OF fr]
  have 1: "session_ok (Some n) None tr t sess" if h: "(S(n \<mapsto> new)) t = Some sess" for t sess
  proof (cases "t = n")
    case True
    then have "sess = new" using h by simp
    then show ?thesis using new ff True unfolding session_ok_def by simp
  next
    case False
    then have s: "S t = Some sess" using h by simp
    have "aborted sess" using ab s by blast
    with InvD [OF inv s] show ?thesis unfolding vr by (rule session_ok_aborted)
  qed
  have 2: "\<forall>t. ((S(n \<mapsto> new)) t \<noteq> None) = (t < Suc n)"
    using inv unfolding InvC_def by (auto simp add: less_Suc_eq)
  have 3: "list_all (\<lambda>a. sid_of a < Suc n) tr"
    using fr by (auto simp add: list_all_iff less_Suc_eq)
  have 4: "live_after {} tr = set_option None" "never_two_live {} tr"
    using inv vr unfolding InvC_def by simp_all
  show ?thesis unfolding InvC_def using 1 2 3 4 by simp
qed

lemma Inv_effect_commit:
  assumes inv: "Inv st" and vr: "viewerRef st = None"
    and ab: "\<And>s sess. sessions st s = Some sess \<Longrightarrow> aborted sess"
  shows "Inv ((fst (effect p now ctor st))\<lparr>effect_deps := d,
                effect_cleanup := snd (effect p now ctor st)\<rparr>)"
proof (cases "containerRef st = None \<or> length (arr_elems (models p)) = 0")
  case True
  then have "effect p now ctor st = (st, None)" by (simp add: effect_def)
  moreover have "InvC (sessions st) (viewerRef st) None (next_sid st) (trace st)"
    using inv [unfolded Inv_def] by (rule InvC_unregister) (use ab in blast)
  ultimately show ?thesis by (simp add: Inv_def)
next
  case False
  then obtain e where False: "containerRef st = Some e" "arr_elems (models p) \<noteq> []" by auto
  define n where "n = next_sid st"
  define new where "new = \<lparr>s_props = p, startTime = now, aborted = False, viewer = None,
                        pc = AwaitingLoad, raf = False\<rparr>"
  define st1 where "st1 = st\<lparr>sessions := (sessions st)(n \<mapsto> new), next_sid := Suc n,
                              effect_cleanup := Some n\<rparr>"
  define stF where "stF = (fst (effect p now ctor st))\<lparr>effect_deps := d,
                effect_cleanup := snd (effect p now ctor st)\<rparr>"
  have "InvC ((sessions st)(next_sid st \<mapsto> new)) None (Some (next_sid st))
          (Suc (next_sid st)) (trace st)"
    using inv [unfolded Inv_def] vr
    by (rule InvC_new_session) (use ab in \<open>auto simp add: new_def\<close>)
  then have inv1: "Inv st1"
    using vr by (simp add: Inv_def st1_def n_def)
  have s1: "sessions st1 n = Some new" by (simp add: st1_def)
  have vr1: "viewerRef st1 = None" using vr by (simp add: st1_def)
  have c1: "effect_cleanup st1 = Some n" by (simp add: st1_def)
  have fpc: "effect_cleanup stF = effect_cleanup st1" "next_sid stF = next_sid st1"
    "viewerRef stF = None"
    using False vr
    by (simp_all add: stF_def st1_def effect_def initViewer_def catch_block_def emit_def
        upd_session_def Let_def n_def split: option.splits prod.splits)
  show ?thesis
  proof (cases ctor)
    case None
    define as where "as = [Construct n, AddSplatScenes n (map url (arr_elems (models p)))]"
    have S: "sessions stF t = (if t = n then Some (new\<lparr>viewer := Some n\<rparr>) else sessions st1 t)" for t
      using False None
      by (simp add: stF_def st1_def effect_def initViewer_def emit_def upd_session_def Let_def
          n_def new_def)
    have tr: "trace stF = trace st1 @ as"
      using False None
      by (simp add: stF_def st1_def effect_def initViewer_def emit_def upd_session_def Let_def
          n_def new_def as_def)
    have "Inv stF"
    proof (rule Inv_act [OF inv1 s1 S tr fpc(1) fpc(2)])
      show "list_all (\<lambda>a. sid_of a = n) as" by (simp add: as_def)
      show "viewerRef stF = viewerRef st1 \<or>
        (viewerRef stF = None \<or> viewerRef stF = Some n) \<and>
        (viewerRef st1 = None \<or> viewerRef st1 = Some n)"
        by (simp add: fpc vr1)
      show "session_ok (effect_cleanup st1) (viewerRef stF) (trace st1 @ as) n (new\<lparr>viewer := Some n\<rparr>)"
        using Inv_session [OF inv1 s1] unfolding session_ok_def fpc(3) vr1 c1
        by (simp add: as_def new_def)
      show "live_after (set_option (viewerRef st1)) as = set_option (viewerRef stF)"
        by (simp add: as_def fpc vr1)
      show "never_two_live (set_option (viewerRef st1)) as"
        by (simp add: as_def vr1)
    qed
    then show ?thesis by (simp add: stF_def)
  next
    case (Some failure)
    obtain err ot where failure: "failure = (err, ot)" by (cases failure)
    note Some = Some [unfolded failure]
    define as where "as = (if onError p \<noteq> None
                            then OnError n (as_Error err)
                                 # (case ot of None \<Rightarrow> [] | Some e \<Rightarrow> [Unhandled n e])
                            else [])"
    have S: "sessions stF t = (if t = n then Some (new\<lparr>pc := Finished\<rparr>) else sessions st1 t)" for t
      using False Some
      by (simp add: stF_def st1_def effect_def initViewer_def catch_block_def emit_def
          upd_session_def Let_def n_def new_def split: option.splits)
    have tr: "trace stF = trace st1 @ as"
      using False Some
      by (simp add: stF_def st1_def effect_def initViewer_def catch_block_def emit_def
          upd_session_def Let_def n_def new_def as_def split: option.splits)
    have "Inv stF"
    proof (rule Inv_act [OF inv1 s1 S tr fpc(1) fpc(2)])
      show "list_all (\<lambda>a. sid_of a = n) as" by (simp add: as_def split: option.splits)
      show "viewerRef stF = viewerRef st1 \<or>
        (viewerRef stF = None \<or> viewerRef stF = Some n) \<and>
        (viewerRef st1 = None \<or> viewerRef st1 = Some n)"
        by (simp add: fpc vr1)
      show "session_ok (effect_cleanup st1) (viewerRef stF) (trace st1 @ as) n (new\<lparr>pc := Finished\<rparr>)"
        using Inv_session [OF inv1 s1] unfolding session_ok_def fpc(3) vr1 c1
        by (simp add: as_def new_def split: option.splits)
      show "live_after (set_option (viewerRef st1)) as = set_option (viewerRef stF)"
        by (simp add: as_def fpc vr1 split: option.splits)
      show "never_two_live (set_option (viewerRef st1)) as"
        by (simp add: as_def vr1 split: option.splits)
    qed
    then show ?thesis by (simp add: stF_def)
  qed
qed

lemma Inv_react_commit:
  assumes inv: "Inv st"
  shows "Inv (react_commit c st)"
proof (cases c)
  case (Render p e now ctor)
  show ?thesis
  proof (cases "unmounted st \<or> effect_deps st = Some (deps p)")
    case True
    then show ?thesis using inv Render by (auto simp add: Inv_def)
  next
    case False
    define st1 where "st1 = st\<lparr>containerRef := e\<rparr>"
    have i1: "Inv st1" using inv by (simp add: st1_def Inv_def)
    note rc = Inv_run_cleanup [OF i1]
    have "Inv ((fst (effect p now ctor (run_cleanup st1)))\<lparr>effect_deps := Some (deps p),
                effect_cleanup := snd (effect p now ctor (run_cleanup st1))\<rparr>)"
      using rc(1) rc(2) rc(3) by (rule Inv_effect_commit)
    then show ?thesis using False Render by (simp add: st1_def Let_def)
  qed
next
  case Unmount
  show ?thesis
  proof (cases "unmounted st")
    case True
    then show ?thesis using inv Unmount by simp
  next
    case False
    note rc = Inv_run_cleanup [OF inv]
    have "InvC (sessions (run_cleanup st)) (viewerRef (run_cleanup st)) None
            (next_sid (run_cleanup st)) (trace (run_cleanup st))"
      using rc(1) [unfolded Inv_def] by (rule InvC_unregister) (use rc(3) in blast)
    then show ?thesis using False Unmount by (simp add: Inv_def)
  qed
qed

lemma Inv_commits: "Inv st \<Longrightarrow> Inv (fold react_commit cs st)"
  by (induction cs arbitrary: st) (simp_all add: Inv_react_commit)

lemma run_cleanup_sessions:
  "sessions (run_cleanup st) t =
     (if effect_cleanup st = Some t then map_option (\<lambda>x. x\<lparr>aborted := True\<rparr>) (sessions st t)
      else sessions st t)"
  by (simp add: run_cleanup_def cleanup_def emit_def upd_session_def Let_def split: option.splits)

lemma run_cleanup_next_sid: "next_sid (run_cleanup st) = next_sid st"
  by (simp add: run_cleanup_def cleanup_def emit_def upd_session_def Let_def split: option.splits)

lemma commit_keeps_session:
  assumes inv: "Inv st" and s: "sessions st s = Some sess"
  shows "\<exists>sess'. sessions (react_commit c st) s = Some sess' \<and> pc sess' = pc sess
           \<and> viewer sess' = viewer sess \<and> s_props sess' = s_props sess
           \<and> startTime sess' = startTime sess \<and> (aborted sess \<longrightarrow> aborted sess')"
proof -
  have lt: "s \<noteq> next_sid st"
    using InvD_lt [OF inv [unfolded Inv_def] s] by simp
  have rc: "\<exists>sess'. sessions (run_cleanup st') s = Some sess' \<and> pc sess' = pc sess
           \<and> viewer sess' = viewer sess \<and> s_props sess' = s_props sess
           \<and> startTime sess' = startTime sess \<and> (aborted sess \<longrightarrow> aborted sess')"
    if "sessions st' s = Some sess" for st'
    using that by (simp add: run_cleanup_sessions)
  show ?thesis
  proof (cases c)
    case (Render p e now ctor)
    show ?thesis
    proof (cases "unmounted st \<or> effect_deps st = Some (deps p)")
      case True
      then show ?thesis using s Render by auto
    next
      case False
      have "sessions (react_commit c st) s = sessions (run_cleanup (st\<lparr>containerRef := e\<rparr>)) s"
        using False Render lt by (simp add: Let_def effect_keeps_sessions run_cleanup_next_sid)
      then show ?thesis using rc [of "st\<lparr>containerRef := e\<rparr>"] s by simp
    qed
  next
    case Unmount
    then show ?thesis using rc [of st] s by (cases "unmounted st") simp_all
  qed
qed

lemma commits_keep_session:
  assumes "Inv st" and "sessions st s = Some sess"
  shows "\<exists>sess'. sessions (fold react_commit cs st) s = Some sess' \<and> pc sess' = pc sess
           \<and> viewer sess' = viewer sess \<and> s_props sess' = s_props sess
           \<and> startTime sess' = startTime sess \<and> (aborted sess \<longrightarrow> aborted sess')"
  using assms
proof (induction cs arbitrary: st sess)
  case Nil
  then show ?case by simp
next
  case (Cons c cs)
  obtain s1 where 1: "sessions (react_commit c st) s = Some s1" "pc s1 = pc sess"
    "viewer s1 = viewer sess" "s_props s1 = s_props sess" "startTime s1 = startTime sess"
    "aborted sess \<longrightarrow> aborted s1"
    using commit_keeps_session [OF Cons.prems, of c] by blast
  have "Inv (react_commit c st)" using Cons.prems(1) by (rule Inv_react_commit)
  from Cons.IH [OF this 1(1)] 1 show ?case by auto
qed

lemma start_branch_footprint:
  assumes "sessions st s = Some sess" and "viewer sess = Some s"
  shows "aborted sess \<Longrightarrow> trace (start_branch s thr ot st) = trace st @ [Dispose s]"
    and "aborted sess \<Longrightarrow> sessions (start_branch s thr ot st) t =
           (if t = s then Some (sess\<lparr>pc := Finished\<rparr>) else sessions st t)"
    and "aborted sess \<Longrightarrow> viewerRef (start_branch s thr ot st) = viewerRef st"
    and "\<not> aborted sess \<Longrightarrow> thr = None \<Longrightarrow>
           trace (start_branch s thr ot st) = trace st @ [Start s, RequestFrame s]"
    and "\<not> aborted sess \<Longrightarrow> thr = None \<Longrightarrow> sessions (start_branch s thr ot st) t =
           (if t = s then Some (sess\<lparr>raf := True, pc := Finished\<rparr>) else sessions st t)"
    and "\<not> aborted sess \<Longrightarrow> thr = None \<Longrightarrow> viewerRef (start_branch s thr ot st) = Some s"
    and "\<not> aborted sess \<Longrightarrow> thr = Some err \<Longrightarrow> start_branch s thr ot st = catch_block s err ot st"
    and "aborted sess \<or> thr = None \<Longrightarrow> effect_cleanup (start_branch s thr ot st) = effect_cleanup st"
    and "aborted sess \<or> thr = None \<Longrightarrow> next_sid (start_branch s thr ot st) = next_sid st"
  using assms
  by (auto simp add: start_branch_def emit_def upd_session_def)

lemma Inv_start_branch:
  assumes inv: "Inv st" and s: "sessions st s = Some sess" and pc: "pc sess = AwaitingLoad"
    and v: "viewer sess = Some s"
  shows "Inv (start_branch s thr ot st)"
proof -
  note ok = Inv_session [OF inv s]
  note fp = start_branch_footprint [OF s v]
  have np: "viewerRef st \<noteq> Some s" using ok pc by (rule not_published)
  show ?thesis
  proof (cases "aborted sess")
    case True
    show ?thesis
    proof (rule Inv_act [OF inv s fp(2) [OF True] fp(1) [OF True] fp(8) fp(9)])
      show "aborted sess \<or> thr = None" "aborted sess \<or> thr = None" using True by simp_all
      show "list_all (\<lambda>a. sid_of a = s) [Dispose s]" by simp
      show "viewerRef (start_branch s thr ot st) = viewerRef st \<or>
        (viewerRef (start_branch s thr ot st) = None \<or> viewerRef (start_branch s thr ot st) = Some s) \<and>
        (viewerRef st = None \<or> viewerRef st = Some s)"
        using fp(3) [OF True] by simp
      show "session_ok (effect_cleanup st) (viewerRef (start_branch s thr ot st))
              (trace st @ [Dispose s]) s (sess\<lparr>pc := Finished\<rparr>)"
        using ok pc np v True unfolding session_ok_def fp(3) [OF True] by simp
      show "live_after (set_option (viewerRef st)) [Dispose s]
              = set_option (viewerRef (start_branch s thr ot st))"
        using np by (simp add: fp(3) [OF True] set_option_Diff)
      show "never_two_live (set_option (viewerRef st)) [Dispose s]" by simp
    qed
  next
    case False
    show ?thesis
    proof (cases thr)
      case (Some err)
      show ?thesis unfolding fp(7) [OF False Some] using inv s pc by (rule Inv_catch_block)
    next
      case None
      have c: "effect_cleanup st = Some s"
        using InvC_registered [OF inv [unfolded Inv_def] s False] .
      have vn: "viewerRef st = None"
      proof (rule ccontr)
        assume "viewerRef st \<noteq> None"
        then obtain w where w: "viewerRef st = Some w" by auto
        then have "effect_cleanup st = Some w"
          using InvC_published [OF inv [unfolded Inv_def]] by blast
        then show False using c w np by simp
      qed
      show ?thesis
      proof (rule Inv_act [OF inv s fp(5) [OF False None] fp(4) [OF False None] fp(8) fp(9)])
        show "aborted sess \<or> thr = None" "aborted sess \<or> thr = None" using None by simp_all
        show "list_all (\<lambda>a. sid_of a = s) [Start s, RequestFrame s]" by simp
        show "viewerRef (start_branch s thr ot st) = viewerRef st \<or>
          (viewerRef (start_branch s thr ot st) = None \<or> viewerRef (start_branch s thr ot st) = Some s) \<and>
          (viewerRef st = None \<or> viewerRef st = Some s)"
          using fp(6) [OF False None] vn by simp
        show "session_ok (effect_cleanup st) (viewerRef (start_branch s thr ot st))
                (trace st @ [Start s, RequestFrame s]) s (sess\<lparr>raf := True, pc := Finished\<rparr>)"
          using ok pc v False unfolding session_ok_def fp(6) [OF False None] by simp
        show "live_after (set_option (viewerRef st)) [Start s, RequestFrame s]
                = set_option (viewerRef (start_branch s thr ot st))"
          using vn by (simp add: fp(6) [OF False None])
        show "never_two_live (set_option (viewerRef st)) [Start s, RequestFrame s]"
          using vn by simp
      qed
    qed
  qed
qed

lemma Inv_emit_OnLoad:
  assumes inv: "Inv st" and s: "sessions st s = Some sess" and na: "\<not> aborted sess"
  shows "Inv (emit (OnLoad s) st)"
proof (rule Inv_act [OF inv s, where sess' = sess and as = "[OnLoad s]"])
  show "sessions (emit (OnLoad s) st) t = (if t = s then Some sess else sessions st t)" for t
    using s by (simp add: emit_def)
  show "trace (emit (OnLoad s) st) = trace st @ [OnLoad s]"
    "effect_cleanup (emit (OnLoad s) st) = effect_cleanup st"
    "next_sid (emit (OnLoad s) st) = next_sid st"
    by (simp_all add: emit_def)
  have vr: "viewerRef (emit (OnLoad s) st) = viewerRef st" by (simp add: emit_def)
  show "viewerRef (emit (OnLoad s) st) = viewerRef st \<or>
    (viewerRef (emit (OnLoad s) st) = None \<or> viewerRef (emit (OnLoad s) st) = Some s) \<and>
    (viewerRef st = None \<or> viewerRef st = Some s)"
    using vr by simp
  show "list_all (\<lambda>a. sid_of a = s) [OnLoad s]" by simp
  show "session_ok (effect_cleanup st) (viewerRef (emit (OnLoad s) st)) (trace st @ [OnLoad s]) s sess"
    using Inv_session [OF inv s] na unfolding session_ok_def vr by simp
  show "live_after (set_option (viewerRef st)) [OnLoad s] = set_option (viewerRef (emit (OnLoad s) st))"
    by (simp add: vr)
  show "never_two_live (set_option (viewerRef st)) [OnLoad s]" by simp
qed

lemma Inv_load_rejected: "Inv st \<Longrightarrow> Inv (load_rejected s err ot st)"
  by (auto simp add: load_rejected_def Inv_catch_block split: option.splits)

lemma Inv_load_resolved:
  assumes inv: "Inv st"
  shows "Inv (load_resolved s env st)"
proof (cases "sessions st s")
  case None
  then show ?thesis using inv by (simp add: load_resolved_def)
next
  case (Some sess)
  note ok = Inv_session [OF inv Some]
  show ?thesis
  proof (cases "viewer sess = None \<or> pc sess \<noteq> AwaitingLoad")
    case True
    then show ?thesis using inv Some by (auto simp add: load_resolved_def split: option.splits)
  next
    case False
    then have pc: "pc sess = AwaitingLoad" and v: "viewer sess = Some s"
      using ok unfolding session_ok_def by auto
    have np: "viewerRef st \<noteq> Some s" using ok pc by (rule not_published)
    show ?thesis
    proof (cases "aborted sess")
      case True
      define st' where "st' = upd_session s (\<lambda>x. x\<lparr>pc := Finished\<rparr>) (emit (Dispose s) st)"
      have eq: "load_resolved s env st = st'"
        using Some pc v True by (simp add: load_resolved_def st'_def)
      have "Inv st'"
      proof (rule Inv_act [OF inv Some, where sess' = "sess\<lparr>pc := Finished\<rparr>" and as = "[Dispose s]"])
        show "sessions st' t = (if t = s then Some (sess\<lparr>pc := Finished\<rparr>) else sessions st t)" for t
          using Some by (simp add: st'_def emit_def upd_session_def)
        show "trace st' = trace st @ [Dispose s]" "effect_cleanup st' = effect_cleanup st"
          "next_sid st' = next_sid st"
          by (simp_all add: st'_def emit_def upd_session_def)
        have vr: "viewerRef st' = viewerRef st" by (simp add: st'_def emit_def upd_session_def)
        show "viewerRef st' = viewerRef st \<or>
          (viewerRef st' = None \<or> viewerRef st' = Some s) \<and>
          (viewerRef st = None \<or> viewerRef st = Some s)"
          using vr by simp
        show "list_all (\<lambda>a. sid_of a = s) [Dispose s]" by simp
        show "session_ok (effect_cleanup st) (viewerRef st') (trace st @ [Dispose s]) s
                (sess\<lparr>pc := Finished\<rparr>)"
          using ok pc np v True unfolding session_ok_def vr by simp
        show "live_after (set_option (viewerRef st)) [Dispose s] = set_option (viewerRef st')"
          using np by (simp add: vr set_option_Diff)
        show "never_two_live (set_option (viewerRef st)) [Dispose s]" by simp
      qed
      then show ?thesis using eq by simp
    next
      case False
      define st1 where "st1 = st\<lparr>stats := Some \<lparr>fps = 0,
            splatCount = (case r_mesh env of None \<Rightarrow> 0 | Some n \<Rightarrow> n),
            loadTime = Math_round (fl (r_now env - startTime sess))\<rparr>, isLoading := False\<rparr>"
      have i1: "Inv st1" using inv by (simp add: st1_def Inv_def)
      have s1: "sessions st1 s = Some sess" using Some by (simp add: st1_def)
      show ?thesis
      proof (cases "onLoad (s_props sess)")
        case None
        then have "load_resolved s env st =
                     start_branch s (r_start_throws env) (r_onError_throws env) st1"
          using Some pc v False by (simp add: load_resolved_def st1_def Let_def)
        then show ?thesis using Inv_start_branch [OF i1 s1 pc v] by simp
      next
        case (Some f)
        define st2 where "st2 = emit (OnLoad s) st1"
        define st3 where "st3 = fold react_commit (r_onLoad_commits env) st2"
        have eq: "load_resolved s env st =
                    (case r_onLoad_throws env of
                       None \<Rightarrow> start_branch s (r_start_throws env) (r_onError_throws env) st3
                     | Some err \<Rightarrow> catch_block s err (r_onError_throws env) st3)"
          using \<open>sessions st s = Some sess\<close> Some pc v False
          by (simp add: load_resolved_def st1_def st2_def st3_def Let_def split: option.splits)
        have i2: "Inv st2" unfolding st2_def using i1 s1 False by (rule Inv_emit_OnLoad)
        have s2: "sessions st2 s = Some sess" using s1 by (simp add: st2_def emit_def)
        have i3: "Inv st3" unfolding st3_def using i2 by (rule Inv_commits)
        obtain sess3 where s3: "sessions st3 s = Some sess3" "pc sess3 = AwaitingLoad"
          "viewer sess3 = Some s"
          using commits_keep_session [OF i2 s2, of "r_onLoad_commits env"] pc v
          unfolding st3_def by auto
        show ?thesis
          unfolding eq
          using Inv_start_branch [OF i3 s3] Inv_catch_block [OF i3 s3(1) s3(2)]
          by (simp split: option.splits)
      qed
    qed
  qed
qed

lemma Inv_step: "Inv st \<Longrightarrow> Inv (step e st)"
  by (cases e)
    (auto simp add: Inv_react_commit Inv_progress_callback Inv_load_resolved Inv_load_rejected
      Inv_frame dispose_settled_def split: option.splits)

lemma Inv_fold: "Inv st \<Longrightarrow> Inv (fold step evs st)"
  by (induction evs arbitrary: st) (simp_all add: Inv_step)

lemma Inv_initial: "Inv initial"
  by (simp add: Inv_def InvC_def initial_def)

lemma Inv_run: "Inv (run evs)"
  unfolding run_def using Inv_initial by (rule Inv_fold)

lemma progress_of_append [simp]: "progress_of s (tr @ as) = progress_of s tr @ progress_of s as"
  by (induction s tr rule: progress_of.induct) simp_all

lemma progress_run_cleanup: "progress_of s (trace (run_cleanup st)) = progress_of s (trace st)"
  by (simp add: run_cleanup_def cleanup_def emit_def upd_session_def Let_def split: option.splits)

lemma progress_catch_block:
  "progress_of s (trace (catch_block t err ot st)) = progress_of s (trace st)"
  by (simp add: catch_block_def emit_def upd_session_def Let_def split: option.splits)

lemma progress_effect:
  "progress_of s (trace (fst (effect p now ctor st))) = progress_of s (trace st)"
  by (simp add: effect_def initViewer_def catch_block_def emit_def upd_session_def Let_def
      split: option.splits prod.splits)

lemma progress_commit: "progress_of s (trace (react_commit c st)) = progress_of s (trace st)"
  by (cases c) (simp_all add: Let_def progress_effect progress_run_cleanup)

lemma progress_commits:
  "progress_of s (trace (fold react_commit cs st)) = progress_of s (trace st)"
  by (induction cs arbitrary: st) (simp_all add: progress_commit)

lemma progress_start_branch:
  "progress_of s (trace (start_branch t thr ot st)) = progress_of s (trace st)"
  by (simp add: start_branch_def progress_catch_block emit_def upd_session_def split: option.splits)

lemma progress_load_resolved:
  "progress_of s (trace (load_resolved t env st)) = progress_of s (trace st)"
  by (simp add: load_resolved_def progress_start_branch progress_catch_block progress_commits
      emit_def upd_session_def Let_def split: option.splits)

lemma progress_load_rejected:
  "progress_of s (trace (load_rejected t err ot st)) = progress_of s (trace st)"
  by (simp add: load_rejected_def progress_catch_block split: option.splits)

lemma progress_frame: "progress_of s (trace (frame t now st)) = progress_of s (trace st)"
  by (simp add: frame_def animate_def updateFPS_footprint emit_def upd_session_def
      split: option.splits)

lemma progress_progress_callback:
  "progress_of s (trace (progress_callback t x st)) =
     progress_of s (trace st)
     @ (if t = s \<and> (\<exists>sess. sessions st t = Some sess \<and> \<not> aborted sess
                              \<and> onProgress (s_props sess) \<noteq> None)
        then [x] else [])"
  by (auto simp add: progress_callback_def emit_def Let_def split: option.splits)

lemma progress_step:
  "\<exists>ys. progress_of s (trace (step e st)) = progress_of s (trace st) @ ys
        \<and> subseq ys (reported_to s [e])"
proof (cases e)
  case (Progress t x)
  show ?thesis
  proof (cases "sessions st t")
    case None
    then show ?thesis using Progress by simp
  next
    case (Some sess)
    then show ?thesis using Progress by (auto simp add: progress_progress_callback)
  qed
qed (simp_all add: progress_commit progress_load_resolved progress_load_rejected progress_frame
      dispose_settled_def)

lemma reported_to_Cons: "reported_to s (e # evs) = reported_to s [e] @ reported_to s evs"
  by (cases e) simp_all

lemma progress_fold:
  "\<exists>ys. progress_of s (trace (fold step evs st)) = progress_of s (trace st) @ ys
        \<and> subseq ys (reported_to s evs)"
proof (induction evs arbitrary: st)
  case Nil
  then show ?case by simp
next
  case (Cons e evs)
  obtain ys where ys: "progress_of s (trace (step e st)) = progress_of s (trace st) @ ys"
    "subseq ys (reported_to s [e])"
    using progress_step by blast
  obtain zs where zs: "progress_of s (trace (fold step evs (step e st)))
        = progress_of s (trace (step e st)) @ zs" "subseq zs (reported_to s evs)"
    using Cons.IH by blast
  have "subseq (ys @ zs) (reported_to s [e] @ reported_to s evs)"
    using ys(2) zs(2) by (rule list_emb_append_mono)
  then show ?case using ys(1) zs(1) reported_to_Cons [of s e evs] by simp
qed

lemma progress_run: "subseq (progress_of s (trace (run evs))) (reported_to s evs)"
  using progress_fold [of s evs initial] by (auto simp add: run_def initial_def)

lemma sorted_subseq: "subseq xs ys \<Longrightarrow> sorted ys \<Longrightarrow> sorted xs"
  by (auto simp add: subseq_conv_nths sorted_nths)

section \<open>Callbacks of a session that is still loading\<close>

































section \<open>Properties of all runs\<close>

lemmas ex2_defs = unmounted_while_loading_def unmounted_while_live_def reloaded_def loading_def
  erratic_progress_def env_start_throws_def env_onLoad_throws_def env_onLoad_unmounts_def
  failed_handler_def

lemma Inv_run_session:
  "sessions (run evs) s = Some sess \<Longrightarrow>
   session_ok (effect_cleanup (run evs)) (viewerRef (run evs)) (trace (run evs)) s sess"
  using Inv_run by (rule Inv_session)

lemma run_fresh:
  assumes "sessions (run evs) s = None"
  shows "Abort s \<notin> set (trace (run evs))" and "Start s \<notin> set (trace (run evs))"
    and "count_list (trace (run evs)) (Dispose s) = 0" and "errors_of s (trace (run evs)) = 0"
    and "quiet_after_abort s (trace (run evs))" and "unhandled_of s (trace (run evs)) = 0"
proof -
  have i: "InvC (sessions (run evs)) (viewerRef (run evs)) (effect_cleanup (run evs))
             (next_sid (run evs)) (trace (run evs))"
    using Inv_run [of evs] by (simp add: Inv_def)
  then have "next_sid (run evs) \<le> s" using assms unfolding InvC_def by (metis not_le_imp_less)
  moreover have "list_all (\<lambda>a. sid_of a < next_sid (run evs)) (trace (run evs))"
    using i unfolding InvC_def by blast
  ultimately have fr: "list_all (\<lambda>a. sid_of a < s) (trace (run evs))"
    by (auto simp add: list_all_iff)
  show "Abort s \<notin> set (trace (run evs))" "Start s \<notin> set (trace (run evs))"
    "count_list (trace (run evs)) (Dispose s) = 0" "errors_of s (trace (run evs)) = 0"
    "quiet_after_abort s (trace (run evs))" "unhandled_of s (trace (run evs)) = 0"
    using fresh_facts [OF fr] by simp_all
qed

lemma run_quiet: "quiet_after_abort s (trace (run evs))"
proof (cases "sessions (run evs) s")
  case None
  then show ?thesis by (rule run_fresh)
next
  case (Some sess)
  then show ?thesis using Inv_run_session [OF Some] unfolding session_ok_def by blast
qed


lemma finite_live_after: "finite L \<Longrightarrow> finite (live_after L tr)"
  by (induction L tr rule: live_after.induct) simp_all





text \<open>
  C3: in every run, at every instant (before, between and after the actions performed) at
  most one viewer has been started and not yet been told to dispose, and after every event
  the live viewers are exactly the published one: a new viewer is started only when the
  previous one has been unpublished and disposed.
\<close>

theorem at_most_one_live:
  "never_two_live {} (trace (run evs))
   \<and> live_after {} (trace (run evs)) = set_option (viewerRef (run evs))
   \<and> finite (live_after {} (take n (trace (run evs))))
   \<and> card (live_after {} (take n (trace (run evs)))) \<le> 1"
proof -
  have i: "never_two_live {} (trace (run evs))"
    "live_after {} (trace (run evs)) = set_option (viewerRef (run evs))"
    using Inv_run [of evs] unfolding Inv_def InvC_def by blast+
  have "never_two_live {} (take n (trace (run evs)) @ drop n (trace (run evs)))"
    using i(1) by simp
  then have "never_two_live (live_after {} (take n (trace (run evs)))) (drop n (trace (run evs)))"
    unfolding never_two_live_append by blast
  then have "card (live_after {} (take n (trace (run evs)))) \<le> 1"
    by (rule never_two_live_card)
  then show ?thesis using i finite_live_after [of "{}"] by simp
qed


text \<open>
  C7, amended: the values passed to \<open>onProgress\<close> for a session are values the renderer
  reported to that session, unchanged and in the same order (each report is forwarded
  when the session is not aborted and the props supply \<open>onProgress\<close>, and dropped
  otherwise); so they are non-decreasing whenever the renderer's reports are. After the
  abort of a session neither \<open>onProgress\<close> nor \<open>onLoad\<close> is called for it.
\<close>

theorem progress_forwarded:
  "subseq (progress_of s (trace (run evs))) (reported_to s evs)
   \<and> (sorted (reported_to s evs) \<longrightarrow> sorted (progress_of s (trace (run evs))))
   \<and> quiet_after_abort s (trace (run evs))
   \<and> (\<forall>sess. sessions st s = Some sess \<and> viewer sess \<noteq> None \<longrightarrow>
        trace (step (Progress s x) st) =
          trace st @ (if \<not> aborted sess \<and> onProgress (s_props sess) \<noteq> None
                      then [OnProgress s x] else []))"
proof -
  have "trace (step (Progress s x) st) =
          trace st @ (if \<not> aborted sess \<and> onProgress (s_props sess) \<noteq> None
                      then [OnProgress s x] else [])"
    if "sessions st s = Some sess" "viewer sess \<noteq> None" for sess
    using that by (auto simp add: progress_callback_def emit_def Let_def)
  then show ?thesis
    using progress_run [of s evs] sorted_subseq [OF progress_run [of s evs]] run_quiet [of s evs]
    by blast
qed


theorem at_most_one_live_witness:
  "trace (run reloaded)
     = [Construct 0, AddSplatScenes 0 [''bonsai.splat''], OnLoad 0, Start 0, RequestFrame 0,
        Abort 0, Dispose 0, Construct 1, AddSplatScenes 1 [''bonsai.splat''], OnLoad 1, Start 1,
        RequestFrame 1]
   \<and> viewerRef (run reloaded) = Some 1
   \<and> live_after {} (trace (run reloaded)) = {1}
   \<and> live_after {} (take 5 (trace (run reloaded))) = {0}
   \<and> card (live_after {} (take 5 (trace (run reloaded)))) \<le> 1"
proof -
  have t: "trace (run reloaded)
     = [Construct 0, AddSplatScenes 0 [''bonsai.splat''], OnLoad 0, Start 0, RequestFrame 0,
        Abort 0, Dispose 0, Construct 1, AddSplatScenes 1 [''bonsai.splat''], OnLoad 1, Start 1,
        RequestFrame 1]"
    and v: "viewerRef (run reloaded) = Some 1"
    by (simp_all add: run_defs example_defs ex2_defs)
  have "live_after {} (trace (run reloaded)) = {1}"
    using at_most_one_live [of reloaded 5] v by simp
  moreover have "card (live_after {} (take 5 (trace (run reloaded)))) \<le> 1"
    using at_most_one_live [of reloaded 5] by simp
  moreover have "live_after {} (take 5 (trace (run reloaded))) = {0}"
    unfolding t by simp
  ultimately show ?thesis using t v by simp
qed



text \<open>
  C7, as stated, fails: the renderer reports 50, then 20, then fulfils the load. Both
  values are passed on, in that order, and \<open>onLoad\<close> is called though 100 was never
  reported.
\<close>

theorem progress_counterexample:
  "progress_of 0 (trace (run erratic_progress)) = [50, 20]
   \<and> \<not> sorted (progress_of 0 (trace (run erratic_progress)))
   \<and> 100 \<notin> set (progress_of 0 (trace (run erratic_progress)))
   \<and> trace (run erratic_progress)
     = [Construct 0, AddSplatScenes 0 [''bonsai.splat''], OnProgress 0 50, OnProgress 0 20,
        OnLoad 0, Start 0, RequestFrame 0]"
  by (simp add: run_defs example_defs ex2_defs)

theorem progress_forwarded_witness:
  "reported_to 0 (loading @ [Progress 0 30, Progress 0 100]) = [30, 100]
   \<and> sorted (reported_to 0 (loading @ [Progress 0 30, Progress 0 100]))
   \<and> sorted (progress_of 0 (trace (run (loading @ [Progress 0 30, Progress 0 100]))))
   \<and> trace (step (Progress 0 30) (run loading))
      = [Construct 0, AddSplatScenes 0 [''bonsai.splat''], OnProgress 0 30]
   \<and> trace (step (Progress 0 30) (run unmounted_while_loading))
      = [Construct 0, AddSplatScenes 0 [''bonsai.splat''], Abort 0]"
proof -
  have r: "reported_to 0 (loading @ [Progress 0 30, Progress 0 100]) = [30, 100]"
    by (simp add: loading_def)
  then have r': "sorted (reported_to 0 (loading @ [Progress 0 30, Progress 0 100]))" by simp
  have 1: "sorted (progress_of 0 (trace (run (loading @ [Progress 0 30, Progress 0 100]))))"
    using progress_forwarded [of 0 "loading @ [Progress 0 30, Progress 0 100]" initial 0] r'
    by blast
  have t: "trace (run loading) = [Construct 0, AddSplatScenes 0 [''bonsai.splat'']]"
    by (simp add: run_defs example_defs ex2_defs)
  have s: "sessions (run loading) 0 =
             Some \<lparr>s_props = props1, startTime = 1000, aborted = False, viewer = Some 0,
                   pc = AwaitingLoad, raf = False\<rparr>"
    by (simp add: run_defs example_defs ex2_defs)
  have 2: "trace (step (Progress 0 30) (run loading))
      = [Construct 0, AddSplatScenes 0 [''bonsai.splat''], OnProgress 0 30]"
    using progress_forwarded [of 0 "[]" "run loading" 30] s t by (simp add: props1_def)
  have t': "trace (run unmounted_while_loading)
     = [Construct 0, AddSplatScenes 0 [''bonsai.splat''], Abort 0]"
    by (simp add: run_defs example_defs ex2_defs)
  have s': "sessions (run unmounted_while_loading) 0 =
             Some \<lparr>s_props = props1, startTime = 1000, aborted = True, viewer = Some 0,
                   pc = AwaitingLoad, raf = False\<rparr>"
    by (simp add: run_defs example_defs ex2_defs)
  have 3: "trace (step (Progress 0 30) (run unmounted_while_loading))
      = [Construct 0, AddSplatScenes 0 [''bonsai.splat''], Abort 0]"
    using progress_forwarded [of 0 "[]" "run unmounted_while_loading" 30] s' t' by simp
  show ?thesis using r r' 1 2 3 by simp
qed

end
